theory Spec2Isabelle
  imports Main "HOL-Library.Word"
begin

section \<open>Values, errors and the environment\<close>

text \<open>
  Go's \<^verbatim>\<open>[]byte\<close> and \<^verbatim>\<open>string\<close> are both byte sequences; they are modelled as
  \<^typ>\<open>string\<close> (a list of 8-bit characters).
\<close>

type_synonym bytes = string

abbreviation newline :: char where
  "newline \<equiv> CHR 0x0A"

text \<open>
  Go \<^verbatim>\<open>error\<close> values of the package. \<open>IOError\<close> stands for any error of a reader, of
  a writer or of the HTTP transport; \<open>JSONError\<close> for a syntax error of encoding/json.
\<close>

datatype error =
    EOF
  | ErrBufferFull
  | ErrNoProgress
  | IOError nat
  | JSONError nat
  | UnmarshalTypeError
  | NoJSONStart bytes
  | ExpectedString string
  | CouldNotDecode
  | NoLanguages error

text \<open>
  The outcome of a call: a value, a returned \<^verbatim>\<open>error\<close>, or a run-time panic
  (index or slice bound out of range), which is not an error value and unwinds the caller.
\<close>

datatype 'a result = Ok 'a | Fail error | Panic

text \<open>
  The dynamic values encoding/json builds for \<^verbatim>\<open>any\<close>: nil, bool, float64 (its 64 bits),
  string, \<^verbatim>\<open>[]any\<close> and \<^verbatim>\<open>map[string]any\<close> (held as an association list in key order).
\<close>

datatype any =
    NilV
  | BoolV bool
  | Float64V "64 word"
  | StringV string
  | SliceV "any list"
  | MapV "(string \<times> any) list"

text \<open>The type name \<^verbatim>\<open>%T\<close> prints.\<close>

fun type_name :: "any \<Rightarrow> string" where
  "type_name NilV = ''<nil>''"
| "type_name (BoolV _) = ''bool''"
| "type_name (Float64V _) = ''float64''"
| "type_name (StringV _) = ''string''"
| "type_name (SliceV _) = ''[]interface {}''"
| "type_name (MapV _) = ''map[string]interface {}''"

text \<open>
  An \<^verbatim>\<open>io.Reader\<close> is given by the results its successive \<^verbatim>\<open>Read\<close> calls want to
  deliver: the bytes, and the error returned with them (none, \<open>EOF\<close> or another). A
  delivery larger than the caller's slice is handed over in pieces (\<^verbatim>\<open>n \<le> len(p)\<close>
  always holds); once the list is used up every \<^verbatim>\<open>Read\<close> returns \<^verbatim>\<open>0, io.EOF\<close>.
  An entry with no bytes and no error is a read of zero bytes with a nil error.
\<close>

type_synonym reader = "(bytes \<times> error option) list"

fun Read :: "nat \<Rightarrow> reader \<Rightarrow> (bytes \<times> error option) \<times> reader" where
  "Read cap [] = (([], Some EOF), [])"
| "Read cap ((bs, e) # rest) =
     (if length bs \<le> cap then ((bs, e), rest)
      else ((take cap bs, None), (drop cap bs, e) # rest))"

text \<open>\<^verbatim>\<open>type Language struct { Code, EnglishName, Endonym string }\<close>\<close>

record Language =
  Code :: string
  EnglishName :: string
  Endonym :: string

text \<open>
  What the package takes from outside: the standard library's encoders and decoders and
  the network. Each is a parameter, so every theorem holds whatever they compute.
  \<^item> \<open>json_string\<close>: the JSON text encoding/json writes for a Go string, quotes included;
  \<^item> \<open>json_float\<close>: the JSON text of a float64;
  \<^item> \<open>QueryEscape\<close>: \<^verbatim>\<open>url.QueryEscape\<close>;
  \<^item> \<open>http_do\<close>: the \<open>k\<close>-th POST (counted from 0) of a body to the batchexecute
    endpoint, with \<^verbatim>\<open>ioutil.ReadAll\<close> of the response: the body or the error;
  \<^item> \<open>json_decode\<close>: \<^verbatim>\<open>json.NewDecoder(r).Decode\<close>, the first JSON value of a byte stream;
  \<^item> \<open>json_unmarshal\<close>: \<^verbatim>\<open>json.Unmarshal\<close>, a byte string that is one JSON value;
  \<^item> \<open>w_Write\<close>: the \<open>k\<close>-th \<^verbatim>\<open>w.Write\<close> on the output sink, its error if any;
  \<^item> \<open>http_get\<close>: the \<open>k\<close>-th GET of a URL: the response body as a reader, or the error;
  \<^item> \<open>decode_langs\<close>, \<open>decode_endonyms\<close>: \<^verbatim>\<open>Decode\<close> of a reader into
    \<^verbatim>\<open>[][2]string\<close> and into \<^verbatim>\<open>map[string]string\<close>.
\<close>

record env =
  json_string :: "string \<Rightarrow> string"
  json_float :: "64 word \<Rightarrow> string"
  QueryEscape :: "string \<Rightarrow> string"
  http_do :: "nat \<Rightarrow> bytes \<Rightarrow> error + bytes"
  json_decode :: "bytes \<Rightarrow> error + any"
  json_unmarshal :: "bytes \<Rightarrow> error + any"
  w_Write :: "nat \<Rightarrow> bytes \<Rightarrow> error option"
  http_get :: "nat \<Rightarrow> string \<Rightarrow> error + reader"
  decode_langs :: "reader \<Rightarrow> error + (string \<times> string) list"
  decode_endonyms :: "reader \<Rightarrow> error + (string \<times> string) list"

section \<open>Helpers of package bytes and strings\<close>

text \<open>\<^verbatim>\<open>strings.Join\<close>\<close>

fun Join :: "string list \<Rightarrow> string \<Rightarrow> string" where
  "Join [] sep = []"
| "Join [x] sep = x"
| "Join (x # y # ys) sep = x @ sep @ Join (y # ys) sep"

text \<open>\<^verbatim>\<open>bytes.HasPrefix\<close>, \<^verbatim>\<open>bytes.HasSuffix\<close>\<close>

definition HasPrefix :: "bytes \<Rightarrow> bytes \<Rightarrow> bool" where
  "HasPrefix s pre = (length pre \<le> length s \<and> take (length pre) s = pre)"

definition HasSuffix :: "bytes \<Rightarrow> bytes \<Rightarrow> bool" where
  "HasSuffix s suf = (length suf \<le> length s \<and> drop (length s - length suf) s = suf)"

text \<open>\<^verbatim>\<open>bytes.Index\<close>: the index of the first instance of \<open>sep\<close>, \<open>None\<close> for -1.\<close>

fun Index :: "bytes \<Rightarrow> bytes \<Rightarrow> nat option" where
  "Index [] sep = (if sep = [] then Some 0 else None)"
| "Index (c # cs) sep =
     (if HasPrefix (c # cs) sep then Some 0
      else map_option Suc (Index cs sep))"

text \<open>\<^verbatim>\<open>bytes.IndexByte\<close> and \<^verbatim>\<open>bytes.LastIndexByte\<close>, \<open>None\<close> for -1.\<close>

fun IndexByte :: "bytes \<Rightarrow> char \<Rightarrow> nat option" where
  "IndexByte [] c = None"
| "IndexByte (x # xs) c = (if x = c then Some 0 else map_option Suc (IndexByte xs c))"

fun LastIndexByte :: "bytes \<Rightarrow> char \<Rightarrow> nat option" where
  "LastIndexByte [] c = None"
| "LastIndexByte (x # xs) c =
     (case LastIndexByte xs c of
        Some k \<Rightarrow> Some (Suc k)
      | None \<Rightarrow> (if x = c then Some 0 else None))"

section \<open>The wire codec: translate\<close>

subsection \<open>Request encoding\<close>

text \<open>
  \<^verbatim>\<open>json.Marshal\<close> on the dynamic values: arrays as \<^verbatim>\<open>[v,v,...]\<close>, nil as \<^verbatim>\<open>null\<close>,
  booleans as \<^verbatim>\<open>true\<close>/\<^verbatim>\<open>false\<close>; strings and numbers by the environment's encoders.
\<close>

fun Marshal :: "env \<Rightarrow> any \<Rightarrow> string" where
  "Marshal E NilV = ''null''"
| "Marshal E (BoolV b) = (if b then ''true'' else ''false'')"
| "Marshal E (Float64V w) = json_float E w"
| "Marshal E (StringV s) = json_string E s"
| "Marshal E (SliceV vs) = ''['' @ Join (map (Marshal E) vs) '','' @ '']''"
| "Marshal E (MapV kvs) =
     ''{'' @ Join (map (\<lambda>kv. json_string E (fst kv) @ '':'' @ Marshal E (snd kv)) kvs) '','' @ ''}''"

text \<open>
  \<^verbatim>\<open>url.Values.Encode\<close>: \<^verbatim>\<open>key=value\<close> pairs, both escaped, joined by \<^verbatim>\<open>&\<close>; the keys
  are given in sorted order.
\<close>

definition Values_Encode :: "env \<Rightarrow> (string \<times> string list) list \<Rightarrow> string" where
  "Values_Encode E vals =
     Join (concat (map (\<lambda>(k, vs). map (\<lambda>v. QueryEscape E k @ ''='' @ QueryEscape E v) vs) vals)) ''&''"

text \<open>Lines 190--199 of translate: the payload, its wrapping and the form body.\<close>

definition payload_of :: "env \<Rightarrow> bytes \<Rightarrow> string \<Rightarrow> string \<Rightarrow> string" where
  "payload_of E data sourceLang targetLang =
     Marshal E (SliceV [SliceV [StringV data, StringV sourceLang, StringV targetLang, BoolV True],
                        SliceV [NilV]])"

definition rpcid :: string where
  "rpcid = ''MkEWBc''"

definition wrap_of :: "env \<Rightarrow> string \<Rightarrow> string" where
  "wrap_of E payload =
     Marshal E (SliceV [SliceV [SliceV [StringV rpcid, StringV payload, NilV, StringV ''generic'']]])"

definition postData_of :: "env \<Rightarrow> bytes \<Rightarrow> string \<Rightarrow> string \<Rightarrow> string" where
  "postData_of E data sourceLang targetLang =
     Values_Encode E [(''f.req'', [wrap_of E (payload_of E data sourceLang targetLang)])]"

subsection \<open>Response decoding\<close>

text \<open>
  Decoding a JSON value into a variable of static type \<^verbatim>\<open>[]any\<close> or \<^verbatim>\<open>[][]any\<close>: null
  gives the nil slice, an array its elements, anything else an \<^verbatim>\<open>UnmarshalTypeError\<close>.
\<close>

fun into_slice :: "any \<Rightarrow> any list result" where
  "into_slice NilV = Ok []"
| "into_slice (SliceV vs) = Ok vs"
| "into_slice _ = Fail UnmarshalTypeError"

fun into_slices :: "any list \<Rightarrow> any list list result" where
  "into_slices [] = Ok []"
| "into_slices (v # vs) =
     (case into_slice v of
        Ok x \<Rightarrow> (case into_slices vs of Ok xs \<Rightarrow> Ok (x # xs) | Fail e \<Rightarrow> Fail e | Panic \<Rightarrow> Panic)
      | Fail e \<Rightarrow> Fail e
      | Panic \<Rightarrow> Panic)"

definition into_slice2 :: "any \<Rightarrow> any list list result" where
  "into_slice2 v =
     (case into_slice v of Ok vs \<Rightarrow> into_slices vs | Fail e \<Rightarrow> Fail e | Panic \<Rightarrow> Panic)"

text \<open>
  Lines 233--238: \<^verbatim>\<open>for _, n := range []int{1, 0, 0, 5} { y, ok = y[n].([]any) ... }\<close>.
  The index expression \<^verbatim>\<open>y[n]\<close> panics when \<open>n\<close> is not below the length.
\<close>

fun descend :: "nat list \<Rightarrow> any list \<Rightarrow> any list result" where
  "descend [] y = Ok y"
| "descend (n # ns) y =
     (if length y \<le> n then Panic
      else (case y ! n of SliceV y' \<Rightarrow> descend ns y' | _ \<Rightarrow> Fail CouldNotDecode))"

text \<open>
  Lines 240--252: each fragment must be an array whose element 0 is a string, appended to
  the buffer. \<^verbatim>\<open>x[0]\<close> panics on an empty array.
\<close>

fun fragments :: "any list \<Rightarrow> bytes \<Rightarrow> bytes result" where
  "fragments [] buf = Ok buf"
| "fragments (x # xs) buf =
     (case x of
        SliceV x' \<Rightarrow>
          (if length x' \<le> 0 then Panic
           else (case x' ! 0 of
                   StringV s \<Rightarrow> fragments xs (buf @ s)
                 | _ \<Rightarrow> Fail CouldNotDecode))
      | _ \<Rightarrow> Fail CouldNotDecode)"

text \<open>Lines 253--258: \<^verbatim>\<open>b[len(b)-1]\<close> panics on the empty buffer.\<close>

definition end_newline :: "bytes \<Rightarrow> bytes result" where
  "end_newline b =
     (if length b = 0 then Panic
      else if b ! (length b - 1) \<noteq> newline then Ok (b @ [newline])
      else Ok b)"

text \<open>Lines 225--258, on the decoded outer value \<open>x\<close> of type \<^verbatim>\<open>[][]any\<close>.\<close>

definition decode_outer :: "env \<Rightarrow> any list list \<Rightarrow> bytes result" where
  "decode_outer E x =
     (if length x \<le> 0 then Panic
      else if length (x ! 0) \<le> 2 then Panic
      else (case x ! 0 ! 2 of
              StringV s \<Rightarrow>
                (case json_unmarshal E s of
                   Inl e \<Rightarrow> Fail e
                 | Inr v \<Rightarrow>
                     (case into_slice v of
                        Fail e \<Rightarrow> Fail e
                      | Panic \<Rightarrow> Panic
                      | Ok y \<Rightarrow>
                          (case descend [1, 0, 0, 5] y of
                             Fail e \<Rightarrow> Fail e
                           | Panic \<Rightarrow> Panic
                           | Ok y' \<Rightarrow>
                               (case fragments y' [] of
                                  Fail e \<Rightarrow> Fail e
                                | Panic \<Rightarrow> Panic
                                | Ok b \<Rightarrow> end_newline b))))
            | v \<Rightarrow> Fail (ExpectedString (type_name v))))"

text \<open>Lines 216--258: the decode phase on the raw response body.\<close>

definition decode_response :: "env \<Rightarrow> bytes \<Rightarrow> bytes result" where
  "decode_response E b =
     (case Index b ''[['' of
        None \<Rightarrow> Fail (NoJSONStart b)
      | Some i \<Rightarrow>
          (case json_decode E (drop i b) of
             Inl e \<Rightarrow> Fail e
           | Inr v \<Rightarrow>
               (case into_slice2 v of
                  Fail e \<Rightarrow> Fail e
                | Panic \<Rightarrow> Panic
                | Ok x \<Rightarrow> decode_outer E x)))"

text \<open>
  translate. The second component is the list of request bodies posted so far: an empty
  segment returns before any request is built. \<^verbatim>\<open>json.Marshal\<close> does not fail on strings,
  booleans, nil and slices of them, and \<^verbatim>\<open>http.NewRequest\<close> does not fail on the constant
  method and URL, so these two error returns have no branch here; a failure of
  \<^verbatim>\<open>Do\<close> or of \<^verbatim>\<open>ReadAll\<close> is an error of \<open>http_do\<close>.
\<close>

definition translate ::
  "env \<Rightarrow> bytes list \<Rightarrow> bytes \<Rightarrow> string \<Rightarrow> string \<Rightarrow> bytes result \<times> bytes list" where
  "translate E posted data sourceLang targetLang =
     (if length data = 0 then (Ok [], posted)
      else
        (let postData = postData_of E data sourceLang targetLang in
         (case http_do E (length posted) postData of
            Inl e \<Rightarrow> (Fail e, posted @ [postData])
          | Inr b \<Rightarrow> (decode_response E b, posted @ [postData]))))"

section \<open>The chunker: Translate\<close>

text \<open>
  The state of the loop of Translate: the array \<^verbatim>\<open>buf\<close> and the index \<^verbatim>\<open>i\<close> (the residue
  is \<^verbatim>\<open>buf[:i]\<close>), the reader \<^verbatim>\<open>r\<close>, and a log of what the loop did: the segments handed
  to translate, the request bodies posted, and the slices written to \<^verbatim>\<open>w\<close>.
\<close>

record chunker =
  c_buf :: bytes
  c_i :: nat
  c_r :: reader
  segments :: "bytes list"
  posted :: "bytes list"
  written :: "bytes list"

datatype step = Continue chunker | Return "unit result" chunker

text \<open>\<^verbatim>\<open>var buf [5000]byte\<close>: the length of the array is part of its type.\<close>

definition buf_len :: nat where
  "buf_len = 5000"

text \<open>
  Lines 58--65: the segment goes to translate, the residue is copied to the front of the
  array (\<^verbatim>\<open>i = copy(buf[:], residue)\<close>), and the translation is written to \<^verbatim>\<open>w\<close>.
  A failed \<^verbatim>\<open>Write\<close> is not entered in the log of written slices.
\<close>

definition emit :: "env \<Rightarrow> string \<Rightarrow> string \<Rightarrow> chunker \<Rightarrow> bytes \<Rightarrow> bytes \<Rightarrow> step" where
  "emit E sourceLang targetLang s seg residue =
     (case translate E (posted s) seg sourceLang targetLang of
        (res, posted') \<Rightarrow>
          (let s2 = s\<lparr>segments := segments s @ [seg], posted := posted'\<rparr> in
             (case res of
                Fail e \<Rightarrow> Return (Fail e) s2
              | Panic \<Rightarrow> Return Panic s2
              | Ok out \<Rightarrow>
                  (let s3 = s2\<lparr>c_buf := residue @ drop (length residue) (c_buf s),
                               c_i := length residue\<rparr>
                   in
                     (case w_Write E (length (written s)) out of
                        Some e \<Rightarrow> Return (Fail e) s3
                      | None \<Rightarrow> Continue (s3\<lparr>written := written s @ [out]\<rparr>))))))"

text \<open>
  Lines 51--56: \<^verbatim>\<open>j := bytes.LastIndexByte(p, '\n')\<close>, then \<^verbatim>\<open>j = n\<close> when there is no
  newline and \<^verbatim>\<open>j++\<close> otherwise (\<open>n\<close> is the length of \<open>p\<close>).
\<close>

definition boundary :: "bytes \<Rightarrow> nat" where
  "boundary p = (case LastIndexByte p newline of None \<Rightarrow> length p | Some k \<Rightarrow> k + 1)"

text \<open>
  One pass through the body of the \<^verbatim>\<open>for\<close> loop (lines 40--65). \<^verbatim>\<open>buf[i:]\<close> panics when
  \<open>i\<close> exceeds the array's length; \<^verbatim>\<open>p\<close> has the \<open>buf_len - i\<close> bytes left.
  \<^verbatim>\<open>r.Read(p)\<close> stores its bytes at \<^verbatim>\<open>buf[i:i+n]\<close>.
\<close>

definition iteration :: "env \<Rightarrow> string \<Rightarrow> string \<Rightarrow> chunker \<Rightarrow> step" where
  "iteration E sourceLang targetLang s =
     (if buf_len < c_i s then Return Panic s
      else
        (case Read (buf_len - c_i s) (c_r s) of
           ((bs, err), r') \<Rightarrow>
             (let n = length bs;
                  buf1 = take (c_i s) (c_buf s) @ bs @ drop (c_i s + n) (c_buf s);
                  s1 = s\<lparr>c_buf := buf1, c_r := r'\<rparr>
              in
                if err \<noteq> None \<and> err \<noteq> Some EOF then Return (Fail (the err)) s1
                else if err \<noteq> None \<and> n = 0 \<and> c_i s = 0 then Return (Ok ()) s1
                else
                  (let p = take n (drop (c_i s) buf1);
                       j = boundary p;
                       residue = drop j p
                   in emit E sourceLang targetLang s1 (take (c_i s + j) buf1) residue))))"

text \<open>The bytes a reader still has to deliver, counted with one more per delivery.\<close>

fun reader_size :: "reader \<Rightarrow> nat" where
  "reader_size [] = 0"
| "reader_size ((bs, e) # rest) = Suc (length bs) + reader_size rest"

definition chunker_measure :: "chunker \<Rightarrow> nat" where
  "chunker_measure s = 2 * reader_size (c_r s) + (if c_i s = 0 then 0 else 1)"

lemma Read_size:
  "Read cap r = ((bs, e), r') \<Longrightarrow> reader_size r' \<le> reader_size r"
  by (cases r) (auto split: if_splits)

lemma Read_length:
  "Read cap r = ((bs, e), r') \<Longrightarrow> length bs \<le> cap"
  by (cases r) (auto split: if_splits)

lemma Read_progress:
  assumes rd: "Read cap r = ((bs, e), r')" and sz: "reader_size r' = reader_size r"
  shows "bs = [] \<and> (r = [] \<and> e = Some EOF \<or> cap = 0 \<and> e = None)"
proof (cases r)
  case Nil
  with rd show ?thesis by auto
next
  case (Cons ev rest)
  obtain a b where ev: "ev = (a, b)" by (cases ev)
  show ?thesis
  proof (cases "length a \<le> cap")
    case True
    with rd sz Cons ev show ?thesis by auto
  next
    case False
    with rd Cons ev have r': "r' = (drop cap a, b) # rest" and bs: "bs = take cap a" and e: "e = None"
      by auto
    from sz r' Cons ev have "length a - cap = length a" by simp
    with False have "cap = 0" by arith
    with bs e show ?thesis by simp
  qed
qed

lemma LastIndexByte_less:
  "LastIndexByte p c = Some k \<Longrightarrow> k < length p"
  by (induction p arbitrary: k) (auto split: option.splits if_splits)

lemma LastIndexByte_None:
  "LastIndexByte p c = None \<longleftrightarrow> c \<notin> set p"
  by (induction p) (auto split: option.splits)

lemma LastIndexByte_at:
  "LastIndexByte p c = Some k \<Longrightarrow> p ! k = c \<and> c \<notin> set (drop (Suc k) p)"
  by (induction p arbitrary: k) (auto split: option.splits if_splits simp: LastIndexByte_None)

lemma boundary_le: "boundary p \<le> length p"
  using LastIndexByte_less [of p newline]
  by (auto simp: boundary_def split: option.splits)

lemma emit_Continue:
  assumes "emit E sourceLang targetLang s seg residue = Continue s'"
  shows "c_r s' = c_r s \<and> c_i s' = length residue
       \<and> c_buf s' = residue @ drop (length residue) (c_buf s)
       \<and> segments s' = segments s @ [seg]"
  using assms
  by (auto simp: emit_def Let_def split: prod.splits result.splits option.splits)

lemma emit_Return:
  assumes "emit E sourceLang targetLang s seg residue = Return res s'"
  shows "c_r s' = c_r s \<and> segments s' = segments s @ [seg] \<and> res \<noteq> Ok ()"
  using assms
  by (auto simp: emit_def Let_def split: prod.splits result.splits option.splits)

lemma iteration_decreases:
  assumes it: "iteration E sourceLang targetLang s = Continue s'"
  shows "chunker_measure s' < chunker_measure s"
proof -
  have le: "c_i s \<le> buf_len"
  proof (rule ccontr)
    assume "\<not> c_i s \<le> buf_len"
    with it show False by (simp add: iteration_def)
  qed
  obtain bs err r' where rd: "Read (buf_len - c_i s) (c_r s) = ((bs, err), r')"
    by (metis prod.exhaust)
  define buf1 where "buf1 = take (c_i s) (c_buf s) @ bs @ drop (c_i s + length bs) (c_buf s)"
  define p where "p = take (length bs) (drop (c_i s) buf1)"
  define s1 where "s1 = s\<lparr>c_buf := buf1, c_r := r'\<rparr>"
  from it rd le
  have notret: "\<not> (err \<noteq> None \<and> length bs = 0 \<and> c_i s = 0)"
    and em: "emit E sourceLang targetLang s1 (take (c_i s + boundary p) buf1) (drop (boundary p) p) = Continue s'"
    by (simp_all add: iteration_def Let_def buf1_def p_def s1_def split: if_splits)
  from emit_Continue [OF em]
  have r': "c_r s' = r'" and i': "c_i s' = length (drop (boundary p) p)"
    by (simp_all add: s1_def)
  show ?thesis
  proof (cases "reader_size r' < reader_size (c_r s)")
    case True
    with r' show ?thesis by (simp add: chunker_measure_def)
  next
    case False
    with Read_size [OF rd] have eq: "reader_size r' = reader_size (c_r s)" by simp
    from Read_progress [OF rd eq]
    have bs: "bs = []" and alt: "c_r s = [] \<and> err = Some EOF \<or> buf_len - c_i s = 0 \<and> err = None"
      by auto
    from bs have "p = []" by (simp add: p_def)
    with i' have i0: "c_i s' = 0" by simp
    from alt notret bs le have "c_i s \<noteq> 0"
      by (auto simp: buf_len_def)
    with i0 r' eq show ?thesis by (simp add: chunker_measure_def)
  qed
qed

text \<open>The \<^verbatim>\<open>for\<close> loop of Translate.\<close>

function Translate_loop :: "env \<Rightarrow> string \<Rightarrow> string \<Rightarrow> chunker \<Rightarrow> unit result \<times> chunker" where
  "Translate_loop E sourceLang targetLang s =
     (case iteration E sourceLang targetLang s of
        Return res s' \<Rightarrow> (res, s')
      | Continue s' \<Rightarrow> Translate_loop E sourceLang targetLang s')"
  by pat_completeness auto
termination
  by (relation "measure (\<lambda>(E, sourceLang, targetLang, s). chunker_measure s)")
    (auto simp: iteration_decreases)

declare Translate_loop.simps [simp del]

text \<open>
  Translate, from the zeroed array and \<^verbatim>\<open>i = 0\<close>. The result holds the returned error (if
  any) and the final state with its log.
\<close>

definition Translate :: "env \<Rightarrow> reader \<Rightarrow> string \<Rightarrow> string \<Rightarrow> unit result \<times> chunker" where
  "Translate E r sourceLang targetLang =
     Translate_loop E sourceLang targetLang
       \<lparr>c_buf = replicate buf_len (CHR 0x00), c_i = 0, c_r = r,
        segments = [], posted = [], written = []\<rparr>"

section \<open>A concrete environment\<close>

text \<open>
  For runs on concrete inputs: an environment whose JSON decoders return two fixed values
  (the outer array and the value nested in its string), whose string encoder quotes
  printable ASCII text, escaping the double quote and the backslash, whose URL escaping
  is the identity, and whose network and sink never fail.
\<close>

abbreviation dquote :: char where
  "dquote \<equiv> CHR 0x22"

abbreviation backslash :: char where
  "backslash \<equiv> CHR 0x5C"

definition quote_ascii :: "string \<Rightarrow> string" where
  "quote_ascii s =
     dquote # concat (map (\<lambda>c. if c = dquote \<or> c = backslash then [backslash, c] else [c]) s)
       @ [dquote]"

definition sample_env :: "any \<Rightarrow> any \<Rightarrow> env" where
  "sample_env outer inner =
     \<lparr>json_string = quote_ascii,
      json_float = (\<lambda>w. ''0''),
      QueryEscape = (\<lambda>s. s),
      http_do = (\<lambda>k body. Inr ''[[]]''),
      json_decode = (\<lambda>b. Inr outer),
      json_unmarshal = (\<lambda>b. Inr inner),
      w_Write = (\<lambda>k out. None),
      http_get = (\<lambda>k url. Inr []),
      decode_langs = (\<lambda>r. Inr []),
      decode_endonyms = (\<lambda>r. Inr [])\<rparr>"

text \<open>
  The nested value of a reply whose element at path \<open>[1][0][0][5]\<close> is the given list of
  fragments, and the outer array that carries a string at \<open>[0][2]\<close>.
\<close>

definition reply_of :: "any list \<Rightarrow> any" where
  "reply_of frags =
     SliceV [NilV, SliceV [SliceV [SliceV [NilV, NilV, NilV, NilV, NilV, SliceV frags]]]]"

definition outer_of :: "string \<Rightarrow> any" where
  "outer_of s = SliceV [SliceV [StringV ''wrb.fr'', StringV rpcid, StringV s]]"

section \<open>The wire codec: properties\<close>

lemma posted_translate:
  "data \<noteq> [] \<Longrightarrow>
     snd (translate E ps data sourceLang targetLang) = ps @ [postData_of E data sourceLang targetLang]"
  by (cases "http_do E (length ps) (postData_of E data sourceLang targetLang)")
    (simp_all add: translate_def)

text \<open>
  C5. For a non-empty segment, translate posts exactly one body: the single form field
  \<^verbatim>\<open>f.req\<close>, URL-escaped, whose value is the URL-escaped JSON text
  \<^verbatim>\<open>[[["MkEWBc",<inner>,null,"generic"]]]\<close>, where \<^verbatim>\<open><inner>\<close> is the JSON string encoding of
  the JSON text \<^verbatim>\<open>[[<text>,<sourceLang>,<targetLang>,true],[null]]\<close> of the two-element array.
\<close>

theorem request_body:
  assumes "data \<noteq> []"
  shows "snd (translate E ps data sourceLang targetLang) =
     ps @ [QueryEscape E ''f.req'' @ ''='' @
           QueryEscape E
             (''[[['' @ json_string E ''MkEWBc'' @ '','' @
                json_string E
                  (''[['' @ json_string E data @ '','' @ json_string E sourceLang @ '','' @
                     json_string E targetLang @ '',true],[null]]'') @
                '',null,'' @ json_string E ''generic'' @ '']]]'')]"
proof -
  have inner: "payload_of E data sourceLang targetLang =
      ''[['' @ json_string E data @ '','' @ json_string E sourceLang @ '','' @
        json_string E targetLang @ '',true],[null]]''"
    by (simp add: payload_of_def)
  have outer: "wrap_of E pl =
      ''[[['' @ json_string E ''MkEWBc'' @ '','' @ json_string E pl @
        '',null,'' @ json_string E ''generic'' @ '']]]''" for pl
    by (simp add: wrap_of_def rpcid_def)
  have "postData_of E data sourceLang targetLang =
      QueryEscape E ''f.req'' @ ''='' @
        QueryEscape E (wrap_of E (payload_of E data sourceLang targetLang))"
    by (simp add: postData_of_def Values_Encode_def)
  with inner outer posted_translate [OF assms, of E ps sourceLang targetLang]
  show ?thesis by simp
qed

theorem request_body_witness:
  "snd (translate (sample_env NilV NilV) [] ''hi'' ''auto'' ''fr'') =
     [''f.req=[[['' @ [dquote] @ ''MkEWBc'' @ [dquote] @ '','' @
        [dquote] @ ''[['' @
          [backslash, dquote] @ ''hi'' @ [backslash, dquote] @ '','' @
          [backslash, dquote] @ ''auto'' @ [backslash, dquote] @ '','' @
          [backslash, dquote] @ ''fr'' @ [backslash, dquote] @ '',true],[null]]'' @ [dquote] @
        '',null,'' @ [dquote] @ ''generic'' @ [dquote] @ '']]]'']"
  using request_body [of "''hi''" "sample_env NilV NilV" "[]" "''auto''" "''fr''"]
  by (simp add: sample_env_def quote_ascii_def)

lemma fragments_strings:
  "fragments (map (\<lambda>(t, rest). SliceV (StringV t # rest)) fr) buf = Ok (buf @ concat (map fst fr))"
  by (induction fr arbitrary: buf) (auto split: prod.splits)

lemma end_newline_nonempty:
  "b \<noteq> [] \<Longrightarrow> end_newline b = Ok (if last b = newline then b else b @ [newline])"
  by (simp add: end_newline_def last_conv_nth)

text \<open>
  C8 (amended). For a response whose outer array has a string at \<open>[0][2]\<close>, whose nested
  value leads along \<open>[1,0,0,5]\<close> to a list of fragments that each start with a string, and
  whose fragment strings are not all empty, the decoded output is the concatenation of
  the fragment strings in order, with one newline appended exactly when the concatenation
  does not already end with a newline. Newlines the concatenation already ends with are
  all kept.
\<close>

theorem decode_fragments:
  assumes marker: "Index b ''[['' = Some i"
    and outer: "json_decode E (drop i b) = Inr v" "into_slice2 v = Ok x"
    and x02: "x = (a0 # a1 # StringV s # a3) # xs"
    and inner: "json_unmarshal E s = Inr w" "into_slice w = Ok y"
    and path: "descend [1, 0, 0, 5] y = Ok (map (\<lambda>(t, rest). SliceV (StringV t # rest)) fr)"
    and nonempty: "concat (map fst fr) \<noteq> []"
  shows "decode_response E b =
     Ok (if last (concat (map fst fr)) = newline then concat (map fst fr)
         else concat (map fst fr) @ [newline])"
proof -
  have "decode_outer E x = end_newline (concat (map fst fr))"
    using x02 inner path by (simp add: decode_outer_def fragments_strings)
  with marker outer nonempty show ?thesis
    by (simp add: decode_response_def end_newline_nonempty)
qed

theorem decode_fragments_witness:
  "decode_response
     (sample_env (outer_of ''s'') (reply_of [SliceV [StringV ''He''], SliceV [StringV ''llo'', NilV]]))
     ('')]}'' @ [newline] @ ''[[x]]'') = Ok (''Hello'' @ [newline])"
  using decode_fragments [of "'')]}'' @ [newline] @ ''[[x]]''" 4
      "sample_env (outer_of ''s'') (reply_of [SliceV [StringV ''He''], SliceV [StringV ''llo'', NilV]])"
      "outer_of ''s''" "[[StringV ''wrb.fr'', StringV rpcid, StringV ''s'']]"
      "StringV ''wrb.fr''" "StringV rpcid" "''s''" "[]" "[]"
      "reply_of [SliceV [StringV ''He''], SliceV [StringV ''llo'', NilV]]"
      "[NilV, SliceV [SliceV [SliceV [NilV, NilV, NilV, NilV, NilV, SliceV [SliceV [StringV ''He''], SliceV [StringV ''llo'', NilV]]]]]]"
      "[(''He'', []), (''llo'', [NilV])]"]
  by (simp add: sample_env_def outer_of_def reply_of_def HasPrefix_def into_slice2_def)

text \<open>
  Fragments \<open>["a\n\n"]\<close> are returned unchanged, ending with two newlines; the single
  fragment \<open>[""]\<close> makes the fragment list non-empty and the buffer empty, and
  \<^verbatim>\<open>b[len(b)-1]\<close> panics.
\<close>

theorem decode_newlines_counterexample:
  "decode_response
     (sample_env (outer_of ''s'') (reply_of [SliceV [StringV (''a'' @ [newline, newline])]]))
     ''[[x]]'' = Ok (''a'' @ [newline, newline])
   \<and> decode_response
     (sample_env (outer_of ''s'') (reply_of [SliceV [StringV '''']]))
     ''[[x]]'' = Panic"
  by (simp add: decode_response_def decode_outer_def end_newline_def sample_env_def outer_of_def
      reply_of_def HasPrefix_def into_slice2_def)

text \<open>
  C9. On a reader that is at its end (its first \<^verbatim>\<open>Read\<close> returns \<^verbatim>\<open>0, io.EOF\<close>), Translate
  returns nil: no segment was handed to translate, no request was posted and nothing was
  written. And translate on an empty segment returns the empty slice without posting.
\<close>

theorem Translate_empty_input:
  "Translate E [] sourceLang targetLang =
     (Ok (), \<lparr>c_buf = replicate buf_len (CHR 0x00), c_i = 0, c_r = [],
              segments = [], posted = [], written = []\<rparr>)
   \<and> Translate E (([], Some EOF) # rest) sourceLang targetLang =
     (Ok (), \<lparr>c_buf = replicate buf_len (CHR 0x00), c_i = 0, c_r = rest,
              segments = [], posted = [], written = []\<rparr>)
   \<and> translate E ps [] sourceLang targetLang = (Ok [], ps)"
proof -
  have a: "Translate E [] sourceLang targetLang =
     (Ok (), \<lparr>c_buf = replicate buf_len (CHR 0x00), c_i = 0, c_r = [],
              segments = [], posted = [], written = []\<rparr>)"
    unfolding Translate_def
    by (subst Translate_loop.simps) (simp add: iteration_def)
  have b: "Translate E (([], Some EOF) # rest) sourceLang targetLang =
     (Ok (), \<lparr>c_buf = replicate buf_len (CHR 0x00), c_i = 0, c_r = rest,
              segments = [], posted = [], written = []\<rparr>)"
    unfolding Translate_def
    by (subst Translate_loop.simps) (simp add: iteration_def)
  have c: "translate E ps [] sourceLang targetLang = (Ok [], ps)"
    by (simp add: translate_def)
  from a b c show ?thesis by simp
qed

text \<open>
  C1. The decode phase does panic. On the response body \<^verbatim>\<open>[[]]\<close> the outer array is
  \<open>[[]]\<close> and \<^verbatim>\<open>x[0][2]\<close> is out of range. The same happens for an empty outer array, for a
  nested value too short for the path \<open>[1,0,0,5]\<close>, for a fragment that is an empty
  array, and for an empty list of fragments (\<^verbatim>\<open>b[len(b)-1]\<close> on the empty buffer).
\<close>

theorem decode_panics:
  "decode_response (sample_env (SliceV [SliceV []]) NilV) ''[[]]'' = Panic
   \<and> decode_outer E [] = Panic
   \<and> decode_outer E [[]] = Panic
   \<and> decode_outer (E\<lparr>json_unmarshal := \<lambda>s. Inr (SliceV [])\<rparr>) [[NilV, NilV, StringV ''[]'']] = Panic
   \<and> decode_outer (E\<lparr>json_unmarshal := \<lambda>s. Inr (reply_of [SliceV []])\<rparr>) [[NilV, NilV, StringV s]] = Panic
   \<and> decode_outer (E\<lparr>json_unmarshal := \<lambda>s. Inr (reply_of [])\<rparr>) [[NilV, NilV, StringV s]] = Panic"
proof -
  have "decode_response (sample_env (SliceV [SliceV []]) NilV) ''[[]]'' = Panic"
    by (simp add: decode_response_def decode_outer_def sample_env_def HasPrefix_def
        into_slice2_def)
  moreover have "decode_outer E [] = Panic" "decode_outer E [[]] = Panic"
    by (simp_all add: decode_outer_def)
  moreover have "decode_outer (E\<lparr>json_unmarshal := \<lambda>s. Inr (SliceV [])\<rparr>)
      [[NilV, NilV, StringV ''[]'']] = Panic"
    by (simp add: decode_outer_def)
  moreover have "decode_outer (E\<lparr>json_unmarshal := \<lambda>s. Inr (reply_of [SliceV []])\<rparr>)
      [[NilV, NilV, StringV s]] = Panic"
    by (simp add: decode_outer_def reply_of_def)
  moreover have "decode_outer (E\<lparr>json_unmarshal := \<lambda>s. Inr (reply_of [])\<rparr>)
      [[NilV, NilV, StringV s]] = Panic"
    by (simp add: decode_outer_def reply_of_def end_newline_def)
  ultimately show ?thesis by simp
qed

section \<open>The chunker: properties\<close>

text \<open>The bytes of a reader's deliveries, in order.\<close>

definition stream :: "reader \<Rightarrow> bytes" where
  "stream r = concat (map fst r)"

text \<open>
  A reader that reports no error before its end: every delivery is without error, except
  that the last may come with \<open>EOF\<close>.
\<close>

fun clean :: "reader \<Rightarrow> bool" where
  "clean [] = True"
| "clean ((bs, e) # rest) = (e = None \<and> clean rest \<or> e = Some EOF \<and> rest = [])"

lemma Read_stream:
  "Read cap r = ((bs, e), r') \<Longrightarrow> bs @ stream r' = stream r"
  by (cases r) (auto simp: stream_def split: if_splits)

lemma Read_clean:
  "clean r \<Longrightarrow> Read cap r = ((bs, e), r') \<Longrightarrow>
     clean r' \<and> (e = None \<or> e = Some EOF \<and> r' = [])"
  by (cases r) (auto split: if_splits)

lemma boundary_newline:
  "newline \<in> set p \<Longrightarrow> take (boundary p) p \<noteq> [] \<and> last (take (boundary p) p) = newline"
proof -
  assume "newline \<in> set p"
  then obtain k where k: "LastIndexByte p newline = Some k"
    using LastIndexByte_None [of p newline] by (cases "LastIndexByte p newline") auto
  from LastIndexByte_less [OF k] have "take (Suc k) p = take k p @ [p ! k]"
    by (rule take_Suc_conv_app_nth)
  with LastIndexByte_at [OF k] k show ?thesis
    by (simp add: boundary_def)
qed

lemma boundary_no_newline:
  "newline \<notin> set p \<Longrightarrow> boundary p = length p"
  using LastIndexByte_None [of p newline] by (simp add: boundary_def)

lemma residue_no_newline:
  "newline \<notin> set (drop (boundary p) p)"
proof (cases "LastIndexByte p newline")
  case None
  then show ?thesis by (simp add: boundary_def)
next
  case (Some k)
  with LastIndexByte_at [OF Some] show ?thesis by (simp add: boundary_def)
qed

lemma iteration_emit:
  assumes len: "length (c_buf s) = buf_len" and le: "c_i s \<le> buf_len"
    and rd: "Read (buf_len - c_i s) (c_r s) = ((bs, err), r')"
  shows "iteration E sourceLang targetLang s =
     (let s1 = s\<lparr>c_buf := take (c_i s) (c_buf s) @ bs @ drop (c_i s + length bs) (c_buf s),
                  c_r := r'\<rparr>
      in if err \<noteq> None \<and> err \<noteq> Some EOF then Return (Fail (the err)) s1
         else if err \<noteq> None \<and> bs = [] \<and> c_i s = 0 then Return (Ok ()) s1
         else emit E sourceLang targetLang s1
                (take (c_i s) (c_buf s) @ take (boundary bs) bs) (drop (boundary bs) bs))"
proof -
  from len le have i: "length (take (c_i s) (c_buf s)) = c_i s" by simp
  have p: "take (length bs) (drop (c_i s)
      (take (c_i s) (c_buf s) @ bs @ drop (c_i s + length bs) (c_buf s))) = bs"
    using i by (simp add: drop_append)
  have seg: "take (c_i s + boundary bs)
      (take (c_i s) (c_buf s) @ bs @ drop (c_i s + length bs) (c_buf s)) =
      take (c_i s) (c_buf s) @ take (boundary bs) bs"
    using i boundary_le [of bs] by (simp add: take_append)
  from le have nlt: "\<not> buf_len < c_i s" by simp
  show ?thesis
    unfolding iteration_def Let_def rd prod.case p seg if_not_P [OF nlt]
    by simp
qed


lemma iteration_Continue_props:
  assumes len: "length (c_buf s) = buf_len" and le: "c_i s \<le> buf_len"
    and it: "iteration E sourceLang targetLang s = Continue s'"
  obtains bs err r' where
    "Read (buf_len - c_i s) (c_r s) = ((bs, err), r')"
    "err = None \<or> err = Some EOF"
    "c_r s' = r'"
    "c_i s' = length (drop (boundary bs) bs)"
    "c_buf s' = drop (boundary bs) bs @ drop (length (drop (boundary bs) bs))
        (take (c_i s) (c_buf s) @ bs @ drop (c_i s + length bs) (c_buf s))"
    "segments s' = segments s @ [take (c_i s) (c_buf s) @ take (boundary bs) bs]"
proof -
  obtain bs err r' where rd: "Read (buf_len - c_i s) (c_r s) = ((bs, err), r')"
    by (metis prod.exhaust)
  define s1 where "s1 = s\<lparr>c_buf := take (c_i s) (c_buf s) @ bs @ drop (c_i s + length bs) (c_buf s),
      c_r := r'\<rparr>"
  from it iteration_emit [OF len le rd, of E sourceLang targetLang]
  have err: "err = None \<or> err = Some EOF"
    and em: "emit E sourceLang targetLang s1
        (take (c_i s) (c_buf s) @ take (boundary bs) bs) (drop (boundary bs) bs) = Continue s'"
    by (auto simp: Let_def s1_def split: if_splits)
  from emit_Continue [OF em] rd err that show ?thesis
    by (simp add: s1_def)
qed

lemma iteration_Return_props:
  assumes len: "length (c_buf s) = buf_len" and le: "c_i s \<le> buf_len"
    and it: "iteration E sourceLang targetLang s = Return res s'"
  obtains bs err r' where
    "Read (buf_len - c_i s) (c_r s) = ((bs, err), r')"
    "segments s' = segments s \<and> (res = Ok () \<longrightarrow> err = Some EOF \<and> bs = [] \<and> c_i s = 0)
     \<or> segments s' = segments s @ [take (c_i s) (c_buf s) @ take (boundary bs) bs] \<and> res \<noteq> Ok ()
         \<and> (err = None \<or> err = Some EOF)"
proof -
  obtain bs err r' where rd: "Read (buf_len - c_i s) (c_r s) = ((bs, err), r')"
    by (metis prod.exhaust)
  define s1 where "s1 = s\<lparr>c_buf := take (c_i s) (c_buf s) @ bs @ drop (c_i s + length bs) (c_buf s),
      c_r := r'\<rparr>"
  define seg where "seg = take (c_i s) (c_buf s) @ take (boundary bs) bs"
  note eq = iteration_emit [OF len le rd, of E sourceLang targetLang, folded s1_def seg_def]
  show ?thesis
  proof (cases "err \<noteq> None \<and> err \<noteq> Some EOF")
    case True
    with it eq have "s' = s1" "res = Fail (the err)" by (auto simp: Let_def split: if_splits)
    with rd that show ?thesis by (simp add: s1_def)
  next
    case nonfatal: False
    show ?thesis
    proof (cases "err \<noteq> None \<and> bs = [] \<and> c_i s = 0")
      case True
      with it eq nonfatal have "s' = s1" by (auto simp: Let_def split: if_splits)
      with rd that True nonfatal show ?thesis by (auto simp: s1_def)
    next
      case False
      with it eq nonfatal
      have "emit E sourceLang targetLang s1 seg (drop (boundary bs) bs) = Return res s'"
        by (auto simp: Let_def split: if_splits)
      from emit_Return [OF this] rd that nonfatal show ?thesis
        by (auto simp: s1_def seg_def)
    qed
  qed
qed

lemma Translate_loop_rule:
  assumes init: "I s"
    and cont: "\<And>s s'. I s \<Longrightarrow> iteration E sourceLang targetLang s = Continue s' \<Longrightarrow> I s'"
    and ret: "\<And>s res s'. I s \<Longrightarrow> iteration E sourceLang targetLang s = Return res s' \<Longrightarrow> Q res s'"
  shows "Q (fst (Translate_loop E sourceLang targetLang s))
           (snd (Translate_loop E sourceLang targetLang s))"
  using init
proof (induction "chunker_measure s" arbitrary: s rule: less_induct)
  case less
  show ?case
  proof (cases "iteration E sourceLang targetLang s")
    case (Continue s')
    then have eq: "Translate_loop E sourceLang targetLang s = Translate_loop E sourceLang targetLang s'"
      by (subst Translate_loop.simps) simp
    from less.hyps [OF iteration_decreases [OF Continue] cont [OF less.prems Continue]] eq
    show ?thesis by simp
  next
    case (Return res s')
    then have "Translate_loop E sourceLang targetLang s = (res, s')"
      by (subst Translate_loop.simps) simp
    with ret [OF less.prems Return] show ?thesis by simp
  qed
qed

text \<open>The array keeps its length, the index stays within it, and no segment is longer.\<close>

definition bounded :: "chunker \<Rightarrow> bool" where
  "bounded s = (length (c_buf s) = buf_len \<and> c_i s \<le> buf_len
     \<and> list_all (\<lambda>seg. length seg \<le> buf_len) (segments s))"

lemma bounded_Continue:
  assumes "bounded s" and it: "iteration E sourceLang targetLang s = Continue s'"
  shows "bounded s'"
proof -
  from assms have len: "length (c_buf s) = buf_len" and le: "c_i s \<le> buf_len"
    and segs: "list_all (\<lambda>seg. length seg \<le> buf_len) (segments s)"
    by (simp_all add: bounded_def)
  from iteration_Continue_props [OF len le it]
  obtain bs err r' where rd: "Read (buf_len - c_i s) (c_r s) = ((bs, err), r')"
    and i': "c_i s' = length (drop (boundary bs) bs)"
    and buf': "c_buf s' = drop (boundary bs) bs @ drop (length (drop (boundary bs) bs))
        (take (c_i s) (c_buf s) @ bs @ drop (c_i s + length bs) (c_buf s))"
    and segs': "segments s' = segments s @ [take (c_i s) (c_buf s) @ take (boundary bs) bs]"
    by blast
  from Read_length [OF rd] have n: "length bs \<le> buf_len - c_i s" .
  with len le have "length (c_buf s') = buf_len"
    by (simp add: buf')
  moreover from n i' le have "c_i s' \<le> buf_len" by simp
  moreover from n len le segs have "list_all (\<lambda>seg. length seg \<le> buf_len) (segments s')"
    by (simp add: segs')
  ultimately show ?thesis by (simp add: bounded_def)
qed

lemma bounded_Return:
  assumes "bounded s" and it: "iteration E sourceLang targetLang s = Return res s'"
  shows "list_all (\<lambda>seg. length seg \<le> buf_len) (segments s')"
proof -
  from assms have len: "length (c_buf s) = buf_len" and le: "c_i s \<le> buf_len"
    and segs: "list_all (\<lambda>seg. length seg \<le> buf_len) (segments s)"
    by (simp_all add: bounded_def)
  from iteration_Return_props [OF len le it]
  obtain bs err r' where rd: "Read (buf_len - c_i s) (c_r s) = ((bs, err), r')"
    and alt: "segments s' = segments s
       \<or> segments s' = segments s @ [take (c_i s) (c_buf s) @ take (boundary bs) bs]"
    by blast
  from Read_length [OF rd] have n: "length bs \<le> buf_len - c_i s" .
  from alt show ?thesis
  proof
    assume "segments s' = segments s"
    with segs show ?thesis by simp
  next
    assume "segments s' = segments s @ [take (c_i s) (c_buf s) @ take (boundary bs) bs]"
    with n len le segs show ?thesis by simp
  qed
qed

text \<open>
  C7. Every segment Translate hands to translate has at most 5000 bytes, whatever the
  reader delivers and however the run ends; the flush of the residue at the end of the
  input is no exception, since every segment is a slice \<^verbatim>\<open>buf[:i+j]\<close> of the array.
\<close>

theorem segments_bounded:
  "\<forall>seg \<in> set (segments (snd (Translate E r sourceLang targetLang))). length seg \<le> 5000"
proof -
  have "bounded \<lparr>c_buf = replicate buf_len (CHR 0x00), c_i = 0, c_r = r,
      segments = [], posted = [], written = []\<rparr>"
    by (simp add: bounded_def)
  from Translate_loop_rule [where I = bounded
      and Q = "\<lambda>res s'. list_all (\<lambda>seg. length seg \<le> buf_len) (segments s')",
      OF this bounded_Continue bounded_Return]
  show ?thesis
    by (simp add: Translate_def list_all_iff buf_len_def)
qed


text \<open>
  What the loop keeps true of the input \<open>inp\<close>: the segments handed over so far, the
  residue \<^verbatim>\<open>buf[:i]\<close> and the bytes still to be read make up the input; the residue has
  no newline; every segment ends with a newline or has none.
\<close>

definition tracks :: "bytes \<Rightarrow> chunker \<Rightarrow> bool" where
  "tracks inp s =
     (length (c_buf s) = buf_len \<and> c_i s \<le> buf_len \<and> clean (c_r s)
      \<and> newline \<notin> set (take (c_i s) (c_buf s))
      \<and> concat (segments s) @ take (c_i s) (c_buf s) @ stream (c_r s) = inp
      \<and> list_all (\<lambda>seg. seg \<noteq> [] \<and> last seg = newline \<or> newline \<notin> set seg) (segments s))"

lemma segment_shape:
  assumes "newline \<notin> set res"
  shows "res @ take (boundary bs) bs \<noteq> [] \<and> last (res @ take (boundary bs) bs) = newline
       \<or> newline \<notin> set (res @ take (boundary bs) bs)"
proof (cases "newline \<in> set bs")
  case True
  from boundary_newline [OF True] show ?thesis by simp
next
  case False
  with assms show ?thesis by (simp add: boundary_no_newline)
qed

lemma tracks_Continue:
  assumes tr: "tracks inp s" and it: "iteration E sourceLang targetLang s = Continue s'"
  shows "tracks inp s'"
proof -
  from tr have len: "length (c_buf s) = buf_len" and le: "c_i s \<le> buf_len"
    and cl: "clean (c_r s)" and res: "newline \<notin> set (take (c_i s) (c_buf s))"
    and inp: "concat (segments s) @ take (c_i s) (c_buf s) @ stream (c_r s) = inp"
    and segs: "list_all (\<lambda>seg. seg \<noteq> [] \<and> last seg = newline \<or> newline \<notin> set seg) (segments s)"
    by (simp_all add: tracks_def)
  from iteration_Continue_props [OF len le it]
  obtain bs err r' where rd: "Read (buf_len - c_i s) (c_r s) = ((bs, err), r')"
    and r': "c_r s' = r'"
    and i': "c_i s' = length (drop (boundary bs) bs)"
    and buf': "c_buf s' = drop (boundary bs) bs @ drop (length (drop (boundary bs) bs))
        (take (c_i s) (c_buf s) @ bs @ drop (c_i s + length bs) (c_buf s))"
    and segs': "segments s' = segments s @ [take (c_i s) (c_buf s) @ take (boundary bs) bs]"
    by blast
  from Read_length [OF rd] have n: "length bs \<le> buf_len - c_i s" .
  from n len le have len': "length (c_buf s') = buf_len" by (simp add: buf')
  from n i' le have le': "c_i s' \<le> buf_len" by simp
  from Read_clean [OF cl rd] r' have cl': "clean (c_r s')" by simp
  have residue': "take (c_i s') (c_buf s') = drop (boundary bs) bs"
    by (simp add: i' buf')
  have "concat (segments s') @ take (c_i s') (c_buf s') @ stream (c_r s') =
      concat (segments s) @ take (c_i s) (c_buf s) @ (take (boundary bs) bs @ drop (boundary bs) bs)
        @ stream r'"
    by (simp add: segs' residue' r')
  also have "\<dots> = inp" using Read_stream [OF rd] inp by simp
  finally have inp': "concat (segments s') @ take (c_i s') (c_buf s') @ stream (c_r s') = inp" .
  from segs segment_shape [OF res, of bs]
  have "list_all (\<lambda>seg. seg \<noteq> [] \<and> last seg = newline \<or> newline \<notin> set seg) (segments s')"
    by (simp add: segs')
  with len' le' cl' inp' residue_no_newline [of bs] show ?thesis
    by (simp add: tracks_def residue')
qed

lemma tracks_Return:
  assumes tr: "tracks inp s" and it: "iteration E sourceLang targetLang s = Return res s'"
  shows "(res = Ok () \<longrightarrow> concat (segments s') = inp)
       \<and> (\<exists>rest. concat (segments s') @ rest = inp)
       \<and> list_all (\<lambda>seg. seg \<noteq> [] \<and> last seg = newline \<or> newline \<notin> set seg) (segments s')"
proof -
  from tr have len: "length (c_buf s) = buf_len" and le: "c_i s \<le> buf_len"
    and cl: "clean (c_r s)" and nonl: "newline \<notin> set (take (c_i s) (c_buf s))"
    and inp: "concat (segments s) @ take (c_i s) (c_buf s) @ stream (c_r s) = inp"
    and segs: "list_all (\<lambda>seg. seg \<noteq> [] \<and> last seg = newline \<or> newline \<notin> set seg) (segments s)"
    by (simp_all add: tracks_def)
  from iteration_Return_props [OF len le it]
  obtain bs err r' where rd: "Read (buf_len - c_i s) (c_r s) = ((bs, err), r')"
    and alt: "segments s' = segments s \<and> (res = Ok () \<longrightarrow> err = Some EOF \<and> bs = [] \<and> c_i s = 0)
     \<or> segments s' = segments s @ [take (c_i s) (c_buf s) @ take (boundary bs) bs] \<and> res \<noteq> Ok ()
         \<and> (err = None \<or> err = Some EOF)"
    by blast
  from alt show ?thesis
  proof
    assume a: "segments s' = segments s \<and> (res = Ok () \<longrightarrow> err = Some EOF \<and> bs = [] \<and> c_i s = 0)"
    have "res = Ok () \<longrightarrow> concat (segments s') = inp"
    proof
      assume "res = Ok ()"
      with a have e: "err = Some EOF" "bs = []" "c_i s = 0" by simp_all
      with Read_clean [OF cl rd] have "r' = []" by simp
      with Read_stream [OF rd] e have "stream (c_r s) = []" by (simp add: stream_def)
      with inp e a show "concat (segments s') = inp" by simp
    qed
    moreover from inp a have "\<exists>rest. concat (segments s') @ rest = inp" by auto
    ultimately show ?thesis using segs a by simp
  next
    assume b: "segments s' = segments s @ [take (c_i s) (c_buf s) @ take (boundary bs) bs] \<and> res \<noteq> Ok ()
         \<and> (err = None \<or> err = Some EOF)"
    have "concat (segments s') @ (drop (boundary bs) bs @ stream r') =
        concat (segments s) @ take (c_i s) (c_buf s) @ (take (boundary bs) bs @ drop (boundary bs) bs)
          @ stream r'"
      using b by simp
    also have "\<dots> = inp" using Read_stream [OF rd] inp by simp
    finally have "\<exists>rest. concat (segments s') @ rest = inp" by blast
    moreover from segs segment_shape [OF nonl, of bs] b
    have "list_all (\<lambda>seg. seg \<noteq> [] \<and> last seg = newline \<or> newline \<notin> set seg) (segments s')"
      by simp
    ultimately show ?thesis using b by simp
  qed
qed

text \<open>
  For a reader that reports no error before its end: the segments handed to translate,
  concatenated in order, are a prefix of the input, and the whole input when Translate
  returns nil; and every segment either ends with a newline or contains no newline.
\<close>

lemma segments_track_input:
  assumes "clean r"
  shows "(fst (Translate E r sourceLang targetLang) = Ok () \<longrightarrow>
            concat (segments (snd (Translate E r sourceLang targetLang))) = stream r)
       \<and> (\<exists>rest. concat (segments (snd (Translate E r sourceLang targetLang))) @ rest = stream r)
       \<and> (\<forall>seg \<in> set (segments (snd (Translate E r sourceLang targetLang))).
            seg \<noteq> [] \<and> last seg = newline \<or> newline \<notin> set seg)"
proof -
  from assms have "tracks (stream r) \<lparr>c_buf = replicate buf_len (CHR 0x00), c_i = 0, c_r = r,
      segments = [], posted = [], written = []\<rparr>"
    by (simp add: tracks_def)
  from Translate_loop_rule [where I = "tracks (stream r)"
      and Q = "\<lambda>res s'. (res = Ok () \<longrightarrow> concat (segments s') = stream r)
       \<and> (\<exists>rest. concat (segments s') @ rest = stream r)
       \<and> list_all (\<lambda>seg. seg \<noteq> [] \<and> last seg = newline \<or> newline \<notin> set seg) (segments s')",
      OF this tracks_Continue tracks_Return]
  show ?thesis
    by (simp add: Translate_def list_all_iff)
qed

text \<open>
  \<^verbatim>\<open>strings.NewReader(s)\<close>, the reader TranslateString hands to Translate: each \<^verbatim>\<open>Read\<close>
  copies as many of the remaining bytes as the slice holds, with a nil error, and returns
  \<^verbatim>\<open>0, io.EOF\<close> once none remain.
\<close>

definition strings_NewReader :: "string \<Rightarrow> reader" where
  "strings_NewReader s = (if s = [] then [] else [(s, None)])"

lemma Read_strings:
  "Read cap (strings_NewReader rest) =
     (if rest = [] then (([], Some EOF), [])
      else if length rest \<le> cap then ((rest, None), [])
      else ((take cap rest, None), strings_NewReader (drop cap rest)))"
  by (auto simp: strings_NewReader_def)

lemma clean_strings: "clean (strings_NewReader inp)"
  by (simp add: strings_NewReader_def)

lemma stream_strings: "stream (strings_NewReader inp) = inp"
  by (simp add: strings_NewReader_def stream_def)

text \<open>
  What the loop keeps true when the input \<open>inp\<close> comes from such a reader and every
  \<open>buf_len\<close> consecutive bytes of it hold a newline: the residue and the unread bytes are
  a suffix of the input, the residue has no newline, and every segment so far ends with
  a newline, except that the last one need not once nothing is left to read or to flush.
\<close>

definition filling :: "bytes \<Rightarrow> chunker \<Rightarrow> bool" where
  "filling inp s =
     (length (c_buf s) = buf_len \<and> c_i s \<le> buf_len
      \<and> newline \<notin> set (take (c_i s) (c_buf s))
      \<and> (\<exists>pre rest. c_r s = strings_NewReader rest \<and> inp = pre @ take (c_i s) (c_buf s) @ rest)
      \<and> (list_all (\<lambda>seg. seg \<noteq> [] \<and> last seg = newline) (segments s)
          \<or> c_r s = [] \<and> c_i s = 0
            \<and> list_all (\<lambda>seg. seg \<noteq> [] \<and> last seg = newline) (butlast (segments s))))"

lemma window_newline:
  assumes win: "\<forall>k. k + buf_len \<le> length inp \<longrightarrow> newline \<in> set (take buf_len (drop k inp))"
    and inp: "inp = pre @ res @ rest" and res: "newline \<notin> set res"
    and le: "length res \<le> buf_len" and more: "buf_len - length res < length rest"
  shows "newline \<in> set (take (buf_len - length res) rest)"
proof -
  from le more inp have "length pre + buf_len \<le> length inp" by simp
  with win have "newline \<in> set (take buf_len (drop (length pre) inp))" by blast
  with inp le have "newline \<in> set (res @ take (buf_len - length res) rest)" by simp
  with res show ?thesis by simp
qed

lemma filling_Continue:
  assumes win: "\<forall>k. k + buf_len \<le> length inp \<longrightarrow> newline \<in> set (take buf_len (drop k inp))"
    and inv: "filling inp s" and it: "iteration E sourceLang targetLang s = Continue s'"
  shows "filling inp s'"
proof -
  let ?nl = "\<lambda>seg. seg \<noteq> [] \<and> last seg = newline"
  let ?res = "take (c_i s) (c_buf s)"
  from inv have len: "length (c_buf s) = buf_len" and le: "c_i s \<le> buf_len"
    and nonl: "newline \<notin> set ?res"
    and segs: "list_all ?nl (segments s)
          \<or> c_r s = [] \<and> c_i s = 0 \<and> list_all ?nl (butlast (segments s))"
    by (simp_all add: filling_def)
  from inv obtain pre rest where r: "c_r s = strings_NewReader rest"
    and inp: "inp = pre @ ?res @ rest"
    by (auto simp: filling_def)
  from len le have lres: "length ?res = c_i s" by simp
  from iteration_Continue_props [OF len le it]
  obtain bs err r' where rd: "Read (buf_len - c_i s) (c_r s) = ((bs, err), r')"
    and r': "c_r s' = r'"
    and i': "c_i s' = length (drop (boundary bs) bs)"
    and buf': "c_buf s' = drop (boundary bs) bs @ drop (length (drop (boundary bs) bs))
        (take (c_i s) (c_buf s) @ bs @ drop (c_i s + length bs) (c_buf s))"
    and segs': "segments s' = segments s @ [?res @ take (boundary bs) bs]"
    by blast
  from Read_length [OF rd] have n: "length bs \<le> buf_len - c_i s" .
  from n len le have len': "length (c_buf s') = buf_len" by (simp add: buf')
  from n i' le have le': "c_i s' \<le> buf_len" by simp
  have residue': "take (c_i s') (c_buf s') = drop (boundary bs) bs"
    by (simp add: i' buf')
  have nonl': "newline \<notin> set (take (c_i s') (c_buf s'))"
    by (simp add: residue' residue_no_newline)
  have all: "list_all ?nl (segments s)"
  proof (rule ccontr)
    assume "\<not> list_all ?nl (segments s)"
    with segs have e: "c_r s = []" "c_i s = 0" by simp_all
    with rd have "bs = []" "err = Some EOF" by simp_all
    with it iteration_emit [OF len le rd, of E sourceLang targetLang] e
    show False by (simp add: Let_def)
  qed
  show ?thesis
  proof (cases "rest = []")
    case True
    with rd r have bs: "bs = []" and rnil: "r' = []" by (simp_all add: Read_strings)
    from bs have "c_i s' = 0" by (simp add: i')
    moreover from True r rnil r' have "c_r s' = []" by simp
    moreover from all have "list_all ?nl (butlast (segments s'))" by (simp add: segs')
    moreover from inp True bs have "inp = (pre @ ?res) @ take (c_i s') (c_buf s') @ []"
      by (simp add: residue')
    moreover have "[] = strings_NewReader []" by (simp add: strings_NewReader_def)
    ultimately show ?thesis
      using len' le' nonl' unfolding filling_def by metis
  next
    case False
    show ?thesis
    proof (cases "length rest \<le> buf_len - c_i s")
      case True
      with False rd r have bs: "bs = rest" and rnil: "r' = []" by (simp_all add: Read_strings)
      have suffix: "inp = (pre @ ?res @ take (boundary bs) bs) @ take (c_i s') (c_buf s') @ []"
        using inp bs by (simp add: residue')
      have rd0: "c_r s' = strings_NewReader []" using r' rnil by (simp add: strings_NewReader_def)
      show ?thesis
      proof (cases "newline \<in> set bs")
        case True
        from boundary_newline [OF True] all have "list_all ?nl (segments s')"
          by (simp add: segs')
        with len' le' nonl' suffix rd0 show ?thesis unfolding filling_def by blast
      next
        case False
        then have "boundary bs = length bs" by (rule boundary_no_newline)
        then have "c_i s' = 0" by (simp add: i')
        moreover from r' rnil have "c_r s' = []" by simp
        moreover from all have "list_all ?nl (butlast (segments s'))" by (simp add: segs')
        ultimately show ?thesis
          using len' le' nonl' suffix rd0 unfolding filling_def by blast
      qed
    next
      case long: False
      with False rd r have bs: "bs = take (buf_len - c_i s) rest"
        and rr: "r' = strings_NewReader (drop (buf_len - c_i s) rest)"
        by (simp_all add: Read_strings)
      from long lres le have more: "buf_len - length ?res < length rest" by simp
      from window_newline [OF win inp nonl _ more] le lres bs
      have nl: "newline \<in> set bs" by simp
      from boundary_newline [OF nl] all have "list_all ?nl (segments s')"
        by (simp add: segs')
      moreover have "inp = (pre @ ?res @ take (boundary bs) bs) @ take (c_i s') (c_buf s')
          @ drop (buf_len - c_i s) rest"
      proof -
        have "rest = bs @ drop (buf_len - c_i s) rest" unfolding bs by simp
        then have "rest = (take (boundary bs) bs @ drop (boundary bs) bs)
            @ drop (buf_len - c_i s) rest" by (simp only: append_take_drop_id)
        then have "rest = take (boundary bs) bs @ drop (boundary bs) bs
            @ drop (buf_len - c_i s) rest" by (simp only: append_assoc)
        with inp show ?thesis by (simp add: residue')
      qed
      moreover from r' rr have "c_r s' = strings_NewReader (drop (buf_len - c_i s) rest)" by simp
      ultimately show ?thesis
        using len' le' nonl' unfolding filling_def by blast
    qed
  qed
qed

lemma filling_Return:
  assumes inv: "filling inp s" and it: "iteration E sourceLang targetLang s = Return res s'"
  shows "list_all (\<lambda>seg. seg \<noteq> [] \<and> last seg = newline) (butlast (segments s'))"
proof -
  let ?nl = "\<lambda>seg. seg \<noteq> [] \<and> last seg = newline"
  from inv have len: "length (c_buf s) = buf_len" and le: "c_i s \<le> buf_len"
    and segs: "list_all ?nl (segments s)
          \<or> c_r s = [] \<and> c_i s = 0 \<and> list_all ?nl (butlast (segments s))"
    by (simp_all add: filling_def)
  from iteration_Return_props [OF len le it]
  obtain bs err r' where rd: "Read (buf_len - c_i s) (c_r s) = ((bs, err), r')"
    and alt: "segments s' = segments s \<and> (res = Ok () \<longrightarrow> err = Some EOF \<and> bs = [] \<and> c_i s = 0)
     \<or> segments s' = segments s @ [take (c_i s) (c_buf s) @ take (boundary bs) bs] \<and> res \<noteq> Ok ()
         \<and> (err = None \<or> err = Some EOF)"
    by blast
  from alt show ?thesis
  proof
    assume "segments s' = segments s \<and> (res = Ok () \<longrightarrow> err = Some EOF \<and> bs = [] \<and> c_i s = 0)"
    with segs show ?thesis by (auto simp: list_all_iff dest: in_set_butlastD)
  next
    assume b: "segments s' = segments s @ [take (c_i s) (c_buf s) @ take (boundary bs) bs]
        \<and> res \<noteq> Ok () \<and> (err = None \<or> err = Some EOF)"
    have "list_all ?nl (segments s)"
    proof (rule ccontr)
      assume "\<not> list_all ?nl (segments s)"
      with segs have e: "c_r s = []" "c_i s = 0" by simp_all
      with rd have "bs = []" "err = Some EOF" by simp_all
      with it iteration_emit [OF len le rd, of E sourceLang targetLang] e b
      show False by (simp add: Let_def)
    qed
    with b show ?thesis by simp
  qed
qed

text \<open>
  C2 (amended). For a reader that reports no error before its end, when Translate
  returns nil the segments handed to translate, concatenated in order, are the input
  exactly. And for an input in which every 5000 consecutive bytes hold a newline, read
  through a reader that fills the slice it is given, every segment other than the last
  ends with a newline, however the run ends.
\<close>

theorem segments_reconstruct:
  "(clean r \<and> fst (Translate E r sourceLang targetLang) = Ok () \<longrightarrow>
      concat (segments (snd (Translate E r sourceLang targetLang))) = stream r)
   \<and> ((\<forall>k. k + 5000 \<le> length inp \<longrightarrow> newline \<in> set (take 5000 (drop k inp))) \<longrightarrow>
      (\<forall>seg \<in> set (butlast (segments
           (snd (Translate E (strings_NewReader inp) sourceLang targetLang)))).
         seg \<noteq> [] \<and> last seg = newline))"
proof (intro conjI impI)
  assume "clean r \<and> fst (Translate E r sourceLang targetLang) = Ok ()"
  with segments_track_input [of r E sourceLang targetLang]
  show "concat (segments (snd (Translate E r sourceLang targetLang))) = stream r"
    by simp
next
  assume "\<forall>k. k + 5000 \<le> length inp \<longrightarrow> newline \<in> set (take 5000 (drop k inp))"
  then have win: "\<forall>k. k + buf_len \<le> length inp \<longrightarrow> newline \<in> set (take buf_len (drop k inp))"
    by (simp add: buf_len_def)
  have init: "filling inp \<lparr>c_buf = replicate buf_len (CHR 0x00), c_i = 0,
      c_r = strings_NewReader inp, segments = [], posted = [], written = []\<rparr>"
    unfolding filling_def by simp blast
  from Translate_loop_rule [where I = "filling inp"
      and Q = "\<lambda>res s'. list_all (\<lambda>seg. seg \<noteq> [] \<and> last seg = newline) (butlast (segments s'))",
      OF init filling_Continue [OF win] filling_Return]
  show "\<forall>seg \<in> set (butlast (segments
           (snd (Translate E (strings_NewReader inp) sourceLang targetLang)))).
         seg \<noteq> [] \<and> last seg = newline"
    by (simp add: Translate_def list_all_iff)
qed


section \<open>The chunker: runs\<close>

text \<open>
  An environment in which every request is answered with the one fragment \<open>ok\<close>, so that
  every non-empty segment is translated to \<open>ok\<close> and a newline.
\<close>

definition ok_env :: env where
  "ok_env = sample_env (outer_of ''ok'') (reply_of [SliceV [StringV ''ok'']])"

lemma ok_translate:
  "data \<noteq> [] \<Longrightarrow> translate ok_env ps data sourceLang targetLang =
     (Ok (''ok'' @ [newline]), ps @ [postData_of ok_env data sourceLang targetLang])"
  by (simp add: translate_def ok_env_def sample_env_def decode_response_def decode_outer_def
      outer_of_def reply_of_def end_newline_def HasPrefix_def into_slice2_def)

lemma translate_empty:
  "translate E ps [] sourceLang targetLang = (Ok [], ps)"
  by (simp add: translate_def)

lemma ok_write: "w_Write ok_env k out = None"
  by (simp add: ok_env_def sample_env_def)

lemma LastIndexByte_replicate:
  "x \<noteq> c \<Longrightarrow> LastIndexByte (replicate n x) c = None"
  by (simp add: LastIndexByte_None)

lemmas run_simps = iteration_def emit_def boundary_def ok_translate ok_write buf_len_def Let_def
  LastIndexByte_replicate

text \<open>
  Four readers: two deliveries, the second with \<open>EOF\<close>; the same input with a read of
  zero bytes in between, and without it; and 6002 bytes delivered as far as the slice
  allows (a \<^verbatim>\<open>strings.Reader\<close>).
\<close>

definition two_reads :: reader where
  "two_reads = [(''a'' @ [newline] @ ''b'', None), (''c'', Some EOF)]"

definition with_zero_read :: reader where
  "with_zero_read = [(''a'' @ [newline] @ ''b'', None), ([], None), (''c'', None)]"

definition without_zero_read :: reader where
  "without_zero_read = [(''a'' @ [newline] @ ''b'', None), (''c'', None)]"

definition long_input :: reader where
  "long_input = [(''a'' @ [newline] @ replicate 6000 (CHR ''b''), None)]"

lemma run_two_reads:
  "Translate ok_env two_reads ''en'' ''fr'' =
     (Ok (),
      \<lparr>c_buf = ''bcb'' @ replicate 4997 (CHR 0x00), c_i = 0, c_r = [],
       segments = [''a'' @ [newline], ''bc''],
       posted = [postData_of ok_env (''a'' @ [newline]) ''en'' ''fr'',
                 postData_of ok_env ''bc'' ''en'' ''fr''],
       written = [''ok'' @ [newline], ''ok'' @ [newline]]\<rparr>)"
  unfolding Translate_def two_reads_def with_zero_read_def without_zero_read_def
  apply (subst Translate_loop.simps, simp add: run_simps)
  apply (subst Translate_loop.simps, simp add: run_simps)
  apply (subst Translate_loop.simps, simp add: run_simps)
  done

lemma run_zero_read:
  "Translate ok_env with_zero_read ''en'' ''fr'' =
     (Ok (),
      \<lparr>c_buf = ''c'' @ [newline] @ ''b'' @ replicate 4997 (CHR 0x00), c_i = 0, c_r = [],
       segments = [''a'' @ [newline], ''b'', ''c''],
       posted = [postData_of ok_env (''a'' @ [newline]) ''en'' ''fr'',
                 postData_of ok_env ''b'' ''en'' ''fr'',
                 postData_of ok_env ''c'' ''en'' ''fr''],
       written = [''ok'' @ [newline], ''ok'' @ [newline], ''ok'' @ [newline]]\<rparr>)"
  unfolding Translate_def two_reads_def with_zero_read_def without_zero_read_def
  apply (subst Translate_loop.simps, simp add: run_simps)
  apply (subst Translate_loop.simps, simp add: run_simps)
  apply (subst Translate_loop.simps, simp add: run_simps)
  apply (subst Translate_loop.simps, simp add: run_simps)
  done

lemma run_no_zero_read:
  "Translate ok_env without_zero_read ''en'' ''fr'' =
     (Ok (),
      \<lparr>c_buf = ''bcb'' @ replicate 4997 (CHR 0x00), c_i = 0, c_r = [],
       segments = [''a'' @ [newline], ''bc''],
       posted = [postData_of ok_env (''a'' @ [newline]) ''en'' ''fr'',
                 postData_of ok_env ''bc'' ''en'' ''fr''],
       written = [''ok'' @ [newline], ''ok'' @ [newline]]\<rparr>)"
  unfolding Translate_def two_reads_def with_zero_read_def without_zero_read_def
  apply (subst Translate_loop.simps, simp add: run_simps)
  apply (subst Translate_loop.simps, simp add: run_simps)
  apply (subst Translate_loop.simps, simp add: run_simps)
  done

lemma run_long:
  "segments (snd (Translate ok_env long_input ''en'' ''fr'')) =
     [''a'' @ [newline], replicate 5000 (CHR ''b''), replicate 1000 (CHR ''b'')]"
proof -
  have "replicate 4998 (CHR ''b'') @ replicate 2 (CHR ''b'') = replicate 5000 (CHR ''b'')"
    by (simp add: replicate_add [symmetric])
  then show ?thesis
    unfolding Translate_def long_input_def
    apply (subst Translate_loop.simps, simp add: run_simps)
    apply (subst Translate_loop.simps, simp add: run_simps)
    apply (subst Translate_loop.simps, simp add: run_simps)
    apply (subst Translate_loop.simps, simp add: run_simps)
    done
qed

lemma LastIndexByte_append:
  "LastIndexByte (xs @ ys) c =
     (case LastIndexByte ys c of
        Some k \<Rightarrow> Some (length xs + k)
      | None \<Rightarrow> LastIndexByte xs c)"
  by (induction xs) (auto split: option.splits)

text \<open>
  An input of 5003 bytes with newlines at offsets 1 and 4992, so that every 5000
  consecutive bytes hold one; deliveries of 1 and 5003 bytes with newlines at offsets 1
  and 5000 of the input; and an environment whose transport fails.
\<close>

definition short_lines :: string where
  "short_lines = ''a'' @ [newline] @ replicate 4990 (CHR ''b'') @ [newline] @ replicate 10 (CHR ''c'')"

definition short_reads :: reader where
  "short_reads = [(''a'', None),
     ([newline] @ replicate 4998 (CHR ''x'') @ [newline] @ ''yyy'', None)]"

definition offline_env :: env where
  "offline_env = ok_env\<lparr>http_do := (\<lambda>k body. Inl (IOError 0))\<rparr>"

lemma run_short_lines:
  "fst (Translate ok_env (strings_NewReader short_lines) ''en'' ''fr'') = Ok ()
   \<and> segments (snd (Translate ok_env (strings_NewReader short_lines) ''en'' ''fr'')) =
       [''a'' @ [newline] @ replicate 4990 (CHR ''b'') @ [newline], replicate 10 (CHR ''c'')]"
proof -
  have c: "replicate 7 (CHR ''c'') @ replicate 3 (CHR ''c'') = replicate 10 (CHR ''c'')"
    by (simp add: replicate_add [symmetric])
  have "fst (Translate ok_env (strings_NewReader short_lines) ''en'' ''fr'') = Ok ()"
    unfolding Translate_def short_lines_def strings_NewReader_def
    apply (subst Translate_loop.simps, simp add: run_simps LastIndexByte_append)
    apply (subst Translate_loop.simps, simp add: run_simps LastIndexByte_append)
    apply (subst Translate_loop.simps, simp add: run_simps LastIndexByte_append)
    done
  moreover from c
  have "segments (snd (Translate ok_env (strings_NewReader short_lines) ''en'' ''fr'')) =
       [''a'' @ [newline] @ replicate 4990 (CHR ''b'') @ [newline], replicate 10 (CHR ''c'')]"
    unfolding Translate_def short_lines_def strings_NewReader_def
    apply (subst Translate_loop.simps, simp add: run_simps LastIndexByte_append)
    apply (subst Translate_loop.simps, simp add: run_simps LastIndexByte_append)
    apply (subst Translate_loop.simps, simp add: run_simps LastIndexByte_append)
    done
  ultimately show ?thesis by simp
qed

lemma short_lines_windows:
  "\<forall>k. k + 5000 \<le> length short_lines \<longrightarrow> newline \<in> set (take 5000 (drop k short_lines))"
proof (intro allI impI)
  fix k
  assume "k + 5000 \<le> length short_lines"
  then have "k = 0 \<or> k = 1 \<or> k = 2 \<or> k = 3"
    by (simp add: short_lines_def) arith
  then show "newline \<in> set (take 5000 (drop k short_lines))"
    by (auto simp: short_lines_def)
qed

lemma run_short_reads:
  "segments (snd (Translate ok_env short_reads ''en'' ''fr'')) =
     [''a'', [newline] @ replicate 4998 (CHR ''x'') @ [newline], ''yyy'']"
  unfolding Translate_def short_reads_def
  apply (subst Translate_loop.simps, simp add: run_simps LastIndexByte_append)
  apply (subst Translate_loop.simps, simp add: run_simps LastIndexByte_append)
  apply (subst Translate_loop.simps, simp add: run_simps LastIndexByte_append)
  apply (subst Translate_loop.simps, simp add: run_simps LastIndexByte_append)
  done

lemma run_offline:
  "Translate offline_env two_reads ''en'' ''fr'' =
     (Fail (IOError 0),
      \<lparr>c_buf = ''a'' @ [newline] @ ''b'' @ replicate 4997 (CHR 0x00), c_i = 0, c_r = [(''c'', Some EOF)],
       segments = [''a'' @ [newline]],
       posted = [postData_of offline_env (''a'' @ [newline]) ''en'' ''fr''],
       written = []\<rparr>)"
  unfolding Translate_def two_reads_def
  apply (subst Translate_loop.simps)
  apply (simp add: iteration_def emit_def boundary_def buf_len_def Let_def translate_def
      offline_env_def)
  done

text \<open>The state a step ends in.\<close>

fun state_of :: "step \<Rightarrow> chunker" where
  "state_of (Continue s) = s"
| "state_of (Return res s) = s"

text \<open>
  C6 (amended). When a read returns zero bytes and no error, the pass through the loop
  hands the residue \<^verbatim>\<open>buf[:i]\<close> to translate as its segment and leaves an empty residue.
  With a non-empty residue that segment is posted to the endpoint. With an empty residue
  nothing is posted, \<^verbatim>\<open>Write\<close> is called with an empty slice, and (unless that fails) the
  loop goes on to the next read with the array and the index as they were.
\<close>

theorem zero_read_flushes_residue:
  assumes len: "length (c_buf s) = buf_len" and le: "c_i s \<le> buf_len"
    and rd: "Read (buf_len - c_i s) (c_r s) = (([], None), r')"
  shows "iteration E sourceLang targetLang s =
           emit E sourceLang targetLang (s\<lparr>c_r := r'\<rparr>) (take (c_i s) (c_buf s)) []
       \<and> segments (state_of (iteration E sourceLang targetLang s)) =
           segments s @ [take (c_i s) (c_buf s)]
       \<and> posted (state_of (iteration E sourceLang targetLang s)) =
           (if c_i s = 0 then posted s
            else posted s @ [postData_of E (take (c_i s) (c_buf s)) sourceLang targetLang])
       \<and> (c_i s = 0 \<longrightarrow>
            iteration E sourceLang targetLang s =
              (case w_Write E (length (written s)) [] of
                 None \<Rightarrow> Continue (s\<lparr>c_r := r', segments := segments s @ [[]],
                                       written := written s @ [[]]\<rparr>)
               | Some e \<Rightarrow> Return (Fail e) (s\<lparr>c_r := r', segments := segments s @ [[]]\<rparr>)))"
proof -
  have eq: "iteration E sourceLang targetLang s =
      emit E sourceLang targetLang (s\<lparr>c_r := r'\<rparr>) (take (c_i s) (c_buf s)) []"
    using iteration_emit [OF len le rd, of E sourceLang targetLang]
    by (simp add: boundary_def)
  have segs: "segments (state_of (emit E sourceLang targetLang (s\<lparr>c_r := r'\<rparr>) seg [])) =
      segments s @ [seg]" for seg
    by (simp add: emit_def Let_def split: prod.splits result.splits option.splits)
  have post: "posted (state_of (emit E sourceLang targetLang (s\<lparr>c_r := r'\<rparr>) seg [])) =
      snd (translate E (posted s) seg sourceLang targetLang)" for seg
    by (simp add: emit_def Let_def split: prod.splits result.splits option.splits)
  have nonempty: "c_i s \<noteq> 0 \<Longrightarrow> take (c_i s) (c_buf s) \<noteq> []"
    using len le by (auto simp: buf_len_def)
  have zero: "c_i s = 0 \<Longrightarrow> emit E sourceLang targetLang (s\<lparr>c_r := r'\<rparr>) [] [] =
      (case w_Write E (length (written s)) [] of
         None \<Rightarrow> Continue (s\<lparr>c_r := r', segments := segments s @ [[]],
                               written := written s @ [[]]\<rparr>)
       | Some e \<Rightarrow> Return (Fail e) (s\<lparr>c_r := r', segments := segments s @ [[]]\<rparr>))"
    by (simp add: emit_def translate_def Let_def split: option.splits)
  show ?thesis
  proof (cases "c_i s = 0")
    case True
    with eq segs post zero show ?thesis by (simp add: translate_def split: option.splits)
  next
    case False
    with eq segs post posted_translate [OF nonempty [OF False]] show ?thesis by simp
  qed
qed


theorem zero_read_flushes_residue_witness:
  "iteration ok_env ''en'' ''fr''
     \<lparr>c_buf = ''b'' @ replicate 4999 (CHR 0x00), c_i = 1, c_r = [([], None), (''c'', None)],
      segments = [''a'' @ [newline]], posted = [''p''], written = [''w'']\<rparr> =
   Continue
     \<lparr>c_buf = ''b'' @ replicate 4999 (CHR 0x00), c_i = 0, c_r = [(''c'', None)],
      segments = [''a'' @ [newline], ''b''],
      posted = [''p'', postData_of ok_env ''b'' ''en'' ''fr''],
      written = [''w'', ''ok'' @ [newline]]\<rparr>
   \<and> iteration ok_env ''en'' ''fr''
     \<lparr>c_buf = replicate 5000 (CHR 0x00), c_i = 0, c_r = [([], None), (''c'', None)],
      segments = [''a'' @ [newline]], posted = [''p''], written = [''w'']\<rparr> =
   Continue
     \<lparr>c_buf = replicate 5000 (CHR 0x00), c_i = 0, c_r = [(''c'', None)],
      segments = [''a'' @ [newline], []], posted = [''p''], written = [''w'', []]\<rparr>"
  using zero_read_flushes_residue [of
      "\<lparr>c_buf = ''b'' @ replicate 4999 (CHR 0x00), c_i = 1, c_r = [([], None), (''c'', None)],
        segments = [''a'' @ [newline]], posted = [''p''], written = [''w'']\<rparr>"
      "[(''c'', None)]" ok_env "''en''" "''fr''"]
    zero_read_flushes_residue [of
      "\<lparr>c_buf = replicate 5000 (CHR 0x00), c_i = 0, c_r = [([], None), (''c'', None)],
        segments = [''a'' @ [newline]], posted = [''p''], written = [''w'']\<rparr>"
      "[(''c'', None)]" ok_env "''en''" "''fr''"]
  by (simp add: buf_len_def emit_def ok_translate ok_write translate_empty)

text \<open>
  A read of zero bytes between \<open>a\nb\<close> and \<open>c\<close> sends the residue \<open>b\<close> as a segment of its
  own: three segments and three requests, against two without that read.
\<close>

theorem zero_read_counterexample:
  "segments (snd (Translate ok_env
      with_zero_read ''en'' ''fr'')) =
     [''a'' @ [newline], ''b'', ''c'']
   \<and> length (posted (snd (Translate ok_env
      with_zero_read ''en'' ''fr''))) = 3
   \<and> segments (snd (Translate ok_env
      without_zero_read ''en'' ''fr'')) =
     [''a'' @ [newline], ''bc'']"
  by (simp add: run_zero_read run_no_zero_read)

theorem segments_bounded_witness:
  "segments (snd (Translate ok_env two_reads ''en'' ''fr'')) =
     [''a'' @ [newline], ''bc'']
   \<and> length (''a'' @ [newline]) \<le> 5000 \<and> length ''bc'' \<le> 5000"
  using segments_bounded [of ok_env two_reads "''en''" "''fr''"]
  by (simp add: run_two_reads)

text \<open>
  The input \<open>short_lines\<close> through a reader that fills the slice: the first segment is cut
  after the newline at offset 4992, the rest is flushed at the end of the input.
\<close>

theorem segments_reconstruct_witness:
  "clean (strings_NewReader short_lines)
   \<and> fst (Translate ok_env (strings_NewReader short_lines) ''en'' ''fr'') = Ok ()
   \<and> length short_lines = 5003
   \<and> list_all (\<lambda>k. newline \<in> set (take 5000 (drop k short_lines))) [0, 1, 2, 3]
   \<and> segments (snd (Translate ok_env (strings_NewReader short_lines) ''en'' ''fr'')) =
       [''a'' @ [newline] @ replicate 4990 (CHR ''b'') @ [newline], replicate 10 (CHR ''c'')]
   \<and> concat [''a'' @ [newline] @ replicate 4990 (CHR ''b'') @ [newline], replicate 10 (CHR ''c'')] =
       stream (strings_NewReader short_lines)
   \<and> last (''a'' @ [newline] @ replicate 4990 (CHR ''b'') @ [newline]) = newline"
proof -
  have len: "length short_lines = 5003"
    by (simp add: short_lines_def)
  have wins: "list_all (\<lambda>k. newline \<in> set (take 5000 (drop k short_lines))) [0, 1, 2, 3]"
    by (simp add: short_lines_def)
  from segments_reconstruct [of "strings_NewReader short_lines" ok_env "''en''" "''fr''" short_lines]
    short_lines_windows clean_strings [of short_lines] run_short_lines
  have "concat [''a'' @ [newline] @ replicate 4990 (CHR ''b'') @ [newline], replicate 10 (CHR ''c'')] =
       stream (strings_NewReader short_lines)"
    and "last (''a'' @ [newline] @ replicate 4990 (CHR ''b'') @ [newline]) = newline"
    by simp_all
  with len wins clean_strings [of short_lines] run_short_lines show ?thesis
    by simp
qed

text \<open>
  An input of 6002 bytes whose only newline is its second byte, read into the full slice
  each time: the second of three segments is 5000 times \<open>b\<close> and does not end with a
  newline. Deliveries shorter than the slice: the first segment is the delivery \<open>a\<close>,
  although every 5000 consecutive bytes of that input hold a newline. A transport that
  fails: Translate stops at the first segment, and the segments are not the input.
\<close>

theorem segments_newline_counterexample:
  "segments (snd (Translate ok_env long_input ''en'' ''fr'')) =
     [''a'' @ [newline], replicate 5000 (CHR ''b''), replicate 1000 (CHR ''b'')]
   \<and> length (stream long_input) = 6002 \<and> newline \<in> set (stream long_input)
   \<and> segments (snd (Translate ok_env short_reads ''en'' ''fr'')) =
     [''a'', [newline] @ replicate 4998 (CHR ''x'') @ [newline], ''yyy'']
   \<and> length (stream short_reads) = 5004
   \<and> fst (Translate offline_env two_reads ''en'' ''fr'') = Fail (IOError 0)
   \<and> segments (snd (Translate offline_env two_reads ''en'' ''fr'')) = [''a'' @ [newline]]
   \<and> stream two_reads = ''a'' @ [newline] @ ''bc''"
proof -
  have "length (stream long_input) = 6002" "newline \<in> set (stream long_input)"
    by (simp_all add: long_input_def stream_def)
  moreover have "length (stream short_reads) = 5004"
    by (simp add: short_reads_def stream_def)
  moreover have "stream two_reads = ''a'' @ [newline] @ ''bc''"
    by (simp add: two_reads_def stream_def)
  ultimately show ?thesis
    by (simp add: run_long run_short_reads run_offline)
qed

section \<open>The delimiter scanner: readUntil\<close>

subsection \<open>bufio.Reader\<close>

text \<open>
  \<^verbatim>\<open>bufio.Reader\<close> as far as readUntil and Languages use it: the unread bytes
  \<^verbatim>\<open>buf[r:w]\<close> of the buffer, the read position \<^verbatim>\<open>r\<close>, the pending error \<^verbatim>\<open>err\<close>, the last
  byte read (for \<^verbatim>\<open>UnreadByte\<close>; \<open>None\<close> for -1), the underlying reader and the size of the
  buffer.
\<close>

record bufio_Reader =
  b_data :: bytes
  b_r :: nat
  b_err :: "error option"
  b_lastByte :: "char option"
  b_rd :: reader
  b_size :: nat

text \<open>\<^verbatim>\<open>bufio.NewReader\<close>: a buffer of \<^verbatim>\<open>defaultBufSize = 4096\<close> bytes.\<close>

definition NewReader :: "reader \<Rightarrow> bufio_Reader" where
  "NewReader rd =
     \<lparr>b_data = [], b_r = 0, b_err = None, b_lastByte = None, b_rd = rd, b_size = 4096\<rparr>"

text \<open>
  The loop of \<^verbatim>\<open>fill\<close>: up to \<^verbatim>\<open>maxConsecutiveEmptyReads = 100\<close> reads into the free part
  of the buffer, until one delivers bytes or an error; then \<^verbatim>\<open>io.ErrNoProgress\<close>.
\<close>

fun fill_tries :: "nat \<Rightarrow> bufio_Reader \<Rightarrow> bufio_Reader" where
  "fill_tries 0 b = b\<lparr>b_err := Some ErrNoProgress\<rparr>"
| "fill_tries (Suc k) b =
     (case Read (b_size b - length (b_data b)) (b_rd b) of
        ((bs, e), rd') \<Rightarrow>
          (let b' = b\<lparr>b_data := b_data b @ bs, b_rd := rd'\<rparr> in
             if e \<noteq> None then b'\<lparr>b_err := e\<rparr>
             else if 0 < length bs then b'
             else fill_tries k b'))"

text \<open>
  \<^verbatim>\<open>fill\<close> slides the unread bytes to the start of the buffer and reads more. It is only
  called with room left in the buffer.
\<close>

definition fill :: "bufio_Reader \<Rightarrow> bufio_Reader" where
  "fill b = fill_tries 100 (b\<lparr>b_r := 0\<rparr>)"

lemma fill_tries_progress:
  assumes "b_err b = None" and "length (b_data b) \<le> b_size b"
  shows "b_size (fill_tries k b) = b_size b
       \<and> length (b_data (fill_tries k b)) \<le> b_size b
       \<and> (b_err (fill_tries k b) \<noteq> None \<and> length (b_data b) \<le> length (b_data (fill_tries k b))
          \<or> b_err (fill_tries k b) = None \<and> length (b_data b) < length (b_data (fill_tries k b)))"
  using assms
proof (induction k arbitrary: b)
  case 0
  then show ?case by simp
next
  case (Suc k)
  obtain bs e rd' where rd: "Read (b_size b - length (b_data b)) (b_rd b) = ((bs, e), rd')"
    by (metis prod.exhaust)
  from Read_length [OF rd] Suc.prems have n: "length (b_data b) + length bs \<le> b_size b" by simp
  show ?case
  proof (cases "e \<noteq> None \<or> 0 < length bs")
    case True
    with rd n Suc.prems show ?thesis by (auto simp: Let_def)
  next
    case False
    with rd have eq: "fill_tries (Suc k) b = fill_tries k (b\<lparr>b_rd := rd'\<rparr>)"
      by (simp add: Let_def)
    from Suc.IH [of "b\<lparr>b_rd := rd'\<rparr>"] Suc.prems eq show ?thesis by simp
  qed
qed

text \<open>
  \<^verbatim>\<open>ReadSlice\<close>: the bytes up to and including the first \<open>delim\<close>; failing that, all that
  is buffered with the pending error, or the full buffer with \<^verbatim>\<open>ErrBufferFull\<close>; failing
  that, fill and search again.
\<close>

definition ReadSlice_measure :: "bufio_Reader \<Rightarrow> nat" where
  "ReadSlice_measure b =
     2 * (b_size b - length (b_data b)) + (if b_err b = None then 1 else 0)"

function ReadSlice :: "bufio_Reader \<Rightarrow> char \<Rightarrow> (bytes \<times> error option) \<times> bufio_Reader" where
  "ReadSlice b delim =
     (case IndexByte (b_data b) delim of
        Some i \<Rightarrow>
          ((take (i + 1) (b_data b), None),
           b\<lparr>b_data := drop (i + 1) (b_data b), b_r := b_r b + i + 1,
             b_lastByte := Some (last (take (i + 1) (b_data b)))\<rparr>)
      | None \<Rightarrow>
          (if b_err b \<noteq> None then
             ((b_data b, b_err b),
              b\<lparr>b_data := [], b_r := b_r b + length (b_data b), b_err := None,
                b_lastByte := (if b_data b = [] then b_lastByte b else Some (last (b_data b)))\<rparr>)
           else if b_size b \<le> length (b_data b) then
             ((b_data b, Some ErrBufferFull),
              b\<lparr>b_data := [], b_r := b_r b + length (b_data b),
                b_lastByte := (if b_data b = [] then b_lastByte b else Some (last (b_data b)))\<rparr>)
           else ReadSlice (fill b) delim))"
  by pat_completeness auto
termination
proof (relation "measure (\<lambda>(b, delim). ReadSlice_measure b)")
  show "wf (measure (\<lambda>(b, delim). ReadSlice_measure b))" by simp
next
  fix b :: bufio_Reader and delim :: char
  assume "\<not> b_err b \<noteq> None" and "\<not> b_size b \<le> length (b_data b)"
  then have e: "b_err (b\<lparr>b_r := 0\<rparr>) = None" and l: "length (b_data (b\<lparr>b_r := 0\<rparr>)) \<le> b_size (b\<lparr>b_r := 0\<rparr>)"
    by simp_all
  from fill_tries_progress [OF e l, of 100] \<open>\<not> b_err b \<noteq> None\<close>
  show "((fill b, delim), (b, delim)) \<in> measure (\<lambda>(b, delim). ReadSlice_measure b)"
    by (auto simp: fill_def ReadSlice_measure_def)
qed

declare ReadSlice.simps [simp del]

text \<open>
  \<^verbatim>\<open>UnreadByte\<close>; Languages drops its error. It fails when no byte was read last, or when
  the read position is at the start of a buffer that holds bytes.
\<close>

definition UnreadByte :: "bufio_Reader \<Rightarrow> bufio_Reader" where
  "UnreadByte b =
     (case b_lastByte b of
        None \<Rightarrow> b
      | Some c \<Rightarrow>
          (if b_r b = 0 \<and> 0 < length (b_data b) then b
           else b\<lparr>b_data := c # b_data b, b_r := b_r b - 1, b_lastByte := None\<rparr>))"

subsection \<open>readUntil\<close>

text \<open>
  Lines 162--168: for each \<open>i\<close> below the length of \<open>sepPrefix\<close>, compare the last
  \<open>len(sepPrefix) - i\<close> bytes of the line with \<open>sepPrefix[i:]\<close>. The slice expression
  panics when the line is shorter than that.
\<close>

fun part_matches :: "bytes \<Rightarrow> bytes \<Rightarrow> nat list \<Rightarrow> bool result" where
  "part_matches line sepPrefix [] = Ok False"
| "part_matches line sepPrefix (i # rest) =
     (if length line + i < length sepPrefix then Panic
      else if drop (length line + i - length sepPrefix) line = drop i sepPrefix then Ok True
      else part_matches line sepPrefix rest)"

text \<open>
  The loop of readUntil (lines 155--183), with the flag \<open>firstPartMatched\<close>. The loop has
  no bound of its own: \<open>None\<close> stands for a run that never returns. The counter \<open>k\<close> of
  newlines is never read and is left out.
\<close>

partial_function (option) readUntil_loop ::
  "bytes \<Rightarrow> bool \<Rightarrow> bufio_Reader \<Rightarrow> (unit result \<times> bufio_Reader) option" where
  "readUntil_loop sep firstPartMatched buf =
     (case ReadSlice buf (last sep) of
        ((line, err), buf') \<Rightarrow>
          (if err = Some ErrBufferFull then
             (case part_matches line (butlast sep) [0..<length (butlast sep)] of
                Panic \<Rightarrow> Some (Panic, buf')
              | Fail e \<Rightarrow> Some (Fail e, buf')
              | Ok matched \<Rightarrow> readUntil_loop sep matched buf')
           else if err \<noteq> None \<and> err \<noteq> Some EOF then Some (Fail (the err), buf')
           else if length line \<le> length sep then
             (if firstPartMatched \<and> line = drop (length sep - length line) sep
              then Some (Ok (), buf')
              else readUntil_loop sep False buf')
           else if HasSuffix line sep \<or> err = Some EOF then Some (Ok (), buf')
           else readUntil_loop sep False buf'))"

definition readUntil :: "bufio_Reader \<Rightarrow> bytes \<Rightarrow> (unit result \<times> bufio_Reader) option" where
  "readUntil buf sep =
     (if length sep = 0 then Some (Ok (), buf) else readUntil_loop sep False buf)"

section \<open>The delimiter scanner: properties\<close>

lemma fill_first_read:
  "fill b =
     (case Read (b_size b - length (b_data b)) (b_rd b) of
        ((bs, e), rd') \<Rightarrow>
          (let b' = b\<lparr>b_r := 0, b_data := b_data b @ bs, b_rd := rd'\<rparr> in
             if e \<noteq> None then b'\<lparr>b_err := e\<rparr>
             else if 0 < length bs then b'
             else fill_tries 99 b'))"
proof -
  have h: "(100::nat) = Suc 99" by simp
  show ?thesis
    unfolding fill_def h fill_tries.simps
    by (simp add: Let_def split: prod.splits)
qed

text \<open>A reader at the end of its input: nothing buffered, nothing pending, nothing to come.\<close>

definition exhausted :: "bufio_Reader \<Rightarrow> bool" where
  "exhausted b = (b_data b = [] \<and> b_err b = None \<and> b_rd b = [] \<and> 0 < b_size b)"

lemma ReadSlice_exhausted:
  assumes "exhausted b"
  shows "ReadSlice b c = (([], Some EOF), b\<lparr>b_r := 0\<rparr>)"
proof -
  from assms have f: "fill b = b\<lparr>b_r := 0, b_err := Some EOF\<rparr>"
    by (simp add: fill_first_read exhausted_def)
  from assms have "ReadSlice b c = ReadSlice (fill b) c"
    by (subst ReadSlice.simps) (simp add: exhausted_def)
  also from assms have "\<dots> = (([], Some EOF), b\<lparr>b_r := 0\<rparr>)"
    unfolding f by (subst ReadSlice.simps) (simp add: exhausted_def)
  finally show ?thesis .
qed

text \<open>
  At the end of the input, with no partial match pending, the loop of readUntil goes
  round for ever: each \<^verbatim>\<open>ReadSlice\<close> returns an empty line with \<^verbatim>\<open>io.EOF\<close>, which is
  no longer than the delimiter and does not match.
\<close>

lemma readUntil_loop_exhausted:
  assumes "exhausted b"
  shows "readUntil_loop sep False b = None"
proof -
  have key: "\<not> exhausted b \<or> fpm" if ret: "readUntil_loop sep fpm b = Some y" for sep fpm b y
  proof (rule readUntil_loop.raw_induct
      [where P = "\<lambda>sep fpm b y. \<not> exhausted b \<or> fpm", OF _ ret], goal_cases)
    case (1 loop sep fpm buf y)
    show ?case
    proof (rule ccontr)
      assume "\<not> ?case"
      then have ex: "exhausted buf" and nf: "\<not> fpm" by simp_all
      with 1(2) have "loop sep False (buf\<lparr>b_r := 0\<rparr>) = Some y"
        by (simp add: ReadSlice_exhausted)
      from 1(1) [OF this] ex show False by (simp add: exhausted_def)
    qed
  qed
  show ?thesis
  proof (cases "readUntil_loop sep False b")
    case None
    then show ?thesis .
  next
    case (Some y)
    from key [OF Some] assms show ?thesis by simp
  qed
qed

lemma ReadSlice_found:
  "IndexByte (b_data b) delim = Some i \<Longrightarrow>
     ReadSlice b delim =
       ((take (i + 1) (b_data b), None),
        b\<lparr>b_data := drop (i + 1) (b_data b), b_r := b_r b + i + 1,
          b_lastByte := Some (last (take (i + 1) (b_data b)))\<rparr>)"
  by (subst ReadSlice.simps) simp

lemma ReadSlice_pending:
  "IndexByte (b_data b) delim = None \<Longrightarrow> b_err b = Some e \<Longrightarrow>
     ReadSlice b delim =
       ((b_data b, Some e),
        b\<lparr>b_data := [], b_r := b_r b + length (b_data b), b_err := None,
          b_lastByte := (if b_data b = [] then b_lastByte b else Some (last (b_data b)))\<rparr>)"
  by (subst ReadSlice.simps) simp

lemma ReadSlice_fill:
  "IndexByte (b_data b) delim = None \<Longrightarrow> b_err b = None \<Longrightarrow> length (b_data b) < b_size b \<Longrightarrow>
     ReadSlice b delim = ReadSlice (fill b) delim"
  by (subst ReadSlice.simps) simp

lemmas scan_simps = NewReader_def ReadSlice_found ReadSlice_pending ReadSlice_fill
  fill_first_read Let_def

text \<open>
  C3. readUntil does not return on every finite input, and it does not report a missing
  delimiter. On the input \<open>x\<close> with delimiter \<open>AB\<close> the last line is shorter than the
  delimiter, and the loop never ends. On the input \<open>hello world\<close> the last line is longer
  than the delimiter, and readUntil returns nil at \<^verbatim>\<open>io.EOF\<close> although \<open>AB\<close> never occurred.
\<close>

theorem readUntil_end_of_stream:
  "readUntil (NewReader [(''x'', None)]) ''AB'' = None
   \<and> readUntil (NewReader [(''hello world'', None)]) ''AB'' =
       Some (Ok (), \<lparr>b_data = [], b_r = 11, b_err = None, b_lastByte = Some (CHR ''d''),
                     b_rd = [], b_size = 4096\<rparr>)"
proof -
  have a: "readUntil (NewReader [(''x'', None)]) ''AB'' = None"
    unfolding readUntil_def
    by (subst readUntil_loop.simps)
      (simp add: scan_simps readUntil_loop_exhausted exhausted_def)
  have b: "readUntil (NewReader [(''hello world'', None)]) ''AB'' =
       Some (Ok (), \<lparr>b_data = [], b_r = 11, b_err = None, b_lastByte = Some (CHR ''d''),
                     b_rd = [], b_size = 4096\<rparr>)"
    unfolding readUntil_def
    by (subst readUntil_loop.simps) (simp add: scan_simps HasSuffix_def)
  from a b show ?thesis by simp
qed

text \<open>
  C4. The delimiter \<open>ABCDE\<close> at the start of the input, delivered as \<open>AB\<close>, \<open>CD\<close>,
  \<open>Ezzzzzz\<close>: \<^verbatim>\<open>ReadSlice\<close> returns the line \<open>ABCDE\<close>, which is not longer than the
  delimiter, so it is only compared when a partial match is pending, and is passed over.
  readUntil then returns nil at \<^verbatim>\<open>io.EOF\<close> with the whole input consumed, instead of
  leaving \<open>zzzzzz\<close> to be read. When nothing follows the delimiter it never returns. With
  one byte in front of the delimiter the line is longer and the match is found.
\<close>

theorem readUntil_misses_delimiter:
  "readUntil (NewReader [(''AB'', None), (''CD'', None), (''Ezzzzzz'', None)]) ''ABCDE'' =
     Some (Ok (), \<lparr>b_data = [], b_r = 6, b_err = None, b_lastByte = Some (CHR ''z''),
                   b_rd = [], b_size = 4096\<rparr>)
   \<and> readUntil (NewReader [(''ABCDE'', None)]) ''ABCDE'' = None
   \<and> readUntil (NewReader [(''xAB'', None), (''CD'', None), (''Ezzzzzz'', None)]) ''ABCDE'' =
     Some (Ok (), \<lparr>b_data = ''zzzzzz'', b_r = 6, b_err = None, b_lastByte = Some (CHR ''E''),
                   b_rd = [], b_size = 4096\<rparr>)"
proof -
  have a: "readUntil (NewReader [(''AB'', None), (''CD'', None), (''Ezzzzzz'', None)]) ''ABCDE'' =
     Some (Ok (), \<lparr>b_data = [], b_r = 6, b_err = None, b_lastByte = Some (CHR ''z''),
                   b_rd = [], b_size = 4096\<rparr>)"
    unfolding readUntil_def
    apply (subst readUntil_loop.simps, simp add: scan_simps)
    apply (subst readUntil_loop.simps, simp add: scan_simps HasSuffix_def)
    done
  have b: "readUntil (NewReader [(''ABCDE'', None)]) ''ABCDE'' = None"
    unfolding readUntil_def
    by (subst readUntil_loop.simps)
      (simp add: scan_simps readUntil_loop_exhausted exhausted_def)
  have c: "readUntil (NewReader [(''xAB'', None), (''CD'', None), (''Ezzzzzz'', None)]) ''ABCDE'' =
     Some (Ok (), \<lparr>b_data = ''zzzzzz'', b_r = 6, b_err = None, b_lastByte = Some (CHR ''E''),
                   b_rd = [], b_size = 4096\<rparr>)"
    unfolding readUntil_def
    by (subst readUntil_loop.simps) (simp add: scan_simps HasSuffix_def)
  from a b c show ?thesis by simp
qed

section \<open>The language catalog: Languages\<close>

text \<open>
  A \<^verbatim>\<open>bufio.Reader\<close> read as an \<^verbatim>\<open>io.Reader\<close>: first the buffered bytes, then the
  pending error if there is one, then what the underlying reader delivers.
\<close>

definition as_reader :: "bufio_Reader \<Rightarrow> reader" where
  "as_reader b =
     (b_data b, None) # (case b_err b of None \<Rightarrow> [] | Some e \<Rightarrow> [([], Some e)]) @ b_rd b"

text \<open>
  \<^verbatim>\<open>singleToDoubleQuoteReader.Read\<close> on the result of one \<^verbatim>\<open>Read\<close> of the wrapped reader,
  and the wrapped reader as a whole.
\<close>

definition quote_Read :: "bytes \<times> error option \<Rightarrow> bytes \<times> error option" where
  "quote_Read res =
     (map (\<lambda>c. if c = CHR 0x27 then CHR 0x22 else c) (fst res), snd res)"

definition singleToDoubleQuoteReader :: "reader \<Rightarrow> reader" where
  "singleToDoubleQuoteReader r = map quote_Read r"

text \<open>
  The package variable \<^verbatim>\<open>cachedLangs\<close> (\<open>None\<close> for the nil slice), and the log of the URLs
  fetched so far.
\<close>

record catalog =
  cachedLangs :: "Language list option"
  fetched :: "string list"

definition langs_url :: string where
  "langs_url = ''https://translate.google.com/''"

definition endonyms_url :: string where
  "endonyms_url = ''https://ssl.gstatic.com/inputtools/js/ln/17/en.js''"

definition langs_delim :: bytes where
  "langs_delim = ''[['' @ [CHR 0x22] @ ''auto'' @ [CHR 0x22] @ '','' @ [CHR 0x22] @
     ''Detect language'' @ [CHR 0x22] @ '']''"

definition endonyms_delim :: bytes where
  "endonyms_delim = ''window.LanguageDisplays.nativeNames = {''"

text \<open>Lines 121--123: one entry per pair, the endonym looked up by code (empty if absent).\<close>

definition merge_langs :: "(string \<times> string) list \<Rightarrow> (string \<times> string) list \<Rightarrow> Language list" where
  "merge_langs langs endonyms =
     map (\<lambda>lang. \<lparr>Code = fst lang, EnglishName = snd lang,
                   Endonym = (case map_of endonyms (fst lang) of None \<Rightarrow> [] | Some n \<Rightarrow> n)\<rparr>) langs"

text \<open>Lines 104--124, after the first document has been decoded.\<close>

definition Languages_endonyms ::
  "env \<Rightarrow> catalog \<Rightarrow> (string \<times> string) list \<Rightarrow> (Language list result \<times> catalog) option" where
  "Languages_endonyms E st langs =
     (case http_get E (length (fetched st)) endonyms_url of
        Inl e \<Rightarrow> Some (Fail e, st\<lparr>fetched := fetched st @ [endonyms_url]\<rparr>)
      | Inr body \<Rightarrow>
          (let st' = st\<lparr>fetched := fetched st @ [endonyms_url]\<rparr> in
             (case readUntil (NewReader body) endonyms_delim of
                None \<Rightarrow> None
              | Some (Panic, buf) \<Rightarrow> Some (Panic, st')
              | Some (Fail e, buf) \<Rightarrow> Some (Fail e, st')
              | Some (Ok u, buf) \<Rightarrow>
                  (case decode_endonyms E (singleToDoubleQuoteReader (as_reader (UnreadByte buf))) of
                     Inl e \<Rightarrow> Some (Fail e, st')
                   | Inr endonyms \<Rightarrow>
                       (let ls = (case cachedLangs st' of None \<Rightarrow> [] | Some c \<Rightarrow> c)
                                   @ merge_langs langs endonyms
                        in Some (Ok ls, st'\<lparr>cachedLangs := Some ls\<rparr>))))))"

text \<open>
  Languages (lines 79--125). \<^verbatim>\<open>cachedLangs = make([]Language, 0, 136)\<close> on line 91 makes the
  variable a non-nil empty slice as soon as the first document has been fetched.
\<close>

definition Languages :: "env \<Rightarrow> catalog \<Rightarrow> (Language list result \<times> catalog) option" where
  "Languages E st =
     (case cachedLangs st of
        Some c \<Rightarrow> Some (Ok c, st)
      | None \<Rightarrow>
          (case http_get E (length (fetched st)) langs_url of
             Inl e \<Rightarrow> Some (Fail e, st\<lparr>fetched := fetched st @ [langs_url]\<rparr>)
           | Inr body \<Rightarrow>
               (let st' = st\<lparr>fetched := fetched st @ [langs_url], cachedLangs := Some []\<rparr> in
                  (case readUntil (NewReader body) langs_delim of
                     None \<Rightarrow> None
                   | Some (Panic, buf) \<Rightarrow> Some (Panic, st')
                   | Some (Fail e, buf) \<Rightarrow> Some (Fail (NoLanguages e), st')
                   | Some (Ok u, buf) \<Rightarrow>
                       (case decode_langs E ((langs_delim, None) # as_reader buf) of
                          Inl e \<Rightarrow> Some (Fail e, st')
                        | Inr langs \<Rightarrow> Languages_endonyms E st' langs)))))"

lemma Languages_endonyms_Fail:
  assumes "Languages_endonyms E st langs = Some (Fail e, st')"
  shows "cachedLangs st' = cachedLangs st"
  using assms
  by (auto simp: Languages_endonyms_def Let_def
      split: sum.splits option.splits prod.splits result.splits)

text \<open>
  C10. If the first call of Languages returns an error after its first fetch succeeded,
  the cache holds the non-nil empty list, and every later call, whatever the network
  would answer, returns the empty list and a nil error without fetching anything.
\<close>

theorem Languages_error_is_cached:
  assumes first: "Languages E \<lparr>cachedLangs = None, fetched = fs\<rparr> = Some (Fail e, st')"
    and got: "http_get E (length fs) langs_url = Inr body"
  shows "cachedLangs st' = Some [] \<and> (\<forall>E'. Languages E' st' = Some (Ok [], st'))"
proof -
  define st1 where "st1 = \<lparr>cachedLangs = Some [], fetched = fs @ [langs_url]\<rparr>"
  have "cachedLangs st' = Some []"
  proof (cases "readUntil (NewReader body) langs_delim")
    case None
    with first got show ?thesis by (simp add: Languages_def)
  next
    case (Some res)
    obtain r buf where res: "res = (r, buf)" by (cases res)
    show ?thesis
    proof (cases r)
      case (Ok u)
      show ?thesis
      proof (cases "decode_langs E ((langs_delim, None) # as_reader buf)")
        case (Inl e')
        with first got Some res Ok show ?thesis by (auto simp: Languages_def)
      next
        case (Inr langs)
        with first got Some res Ok
        have "Languages_endonyms E st1 langs = Some (Fail e, st')"
          by (simp add: Languages_def st1_def)
        from Languages_endonyms_Fail [OF this] show ?thesis by (simp add: st1_def)
      qed
    next
      case (Fail e')
      with first got Some res show ?thesis by (auto simp: Languages_def)
    next
      case Panic
      with first got Some res show ?thesis by (simp add: Languages_def)
    qed
  qed
  then show ?thesis by (simp add: Languages_def)
qed

text \<open>
  An environment in which the first document is an error page without the list of
  languages, and decoding the list fails.
\<close>

definition error_page :: reader where
  "error_page = [(''<html><body>Service unavailable</body></html>'', None)]"

definition failing_env :: env where
  "failing_env = (sample_env NilV NilV)
     \<lparr>http_get := (\<lambda>k url. Inr error_page), decode_langs := (\<lambda>r. Inl (JSONError 0))\<rparr>"

theorem Languages_error_is_cached_witness:
  "Languages failing_env \<lparr>cachedLangs = None, fetched = []\<rparr> =
     Some (Fail (JSONError 0), \<lparr>cachedLangs = Some [], fetched = [langs_url]\<rparr>)
   \<and> http_get failing_env 0 langs_url = Inr error_page
   \<and> cachedLangs \<lparr>cachedLangs = Some [], fetched = [langs_url]\<rparr> = Some []
   \<and> Languages (sample_env NilV NilV) \<lparr>cachedLangs = Some [], fetched = [langs_url]\<rparr> =
     Some (Ok [], \<lparr>cachedLangs = Some [], fetched = [langs_url]\<rparr>)"
proof -
  have scan: "readUntil (NewReader error_page) langs_delim =
      Some (Ok (), \<lparr>b_data = [], b_r = 45, b_err = None, b_lastByte = Some (CHR ''>''),
                    b_rd = [], b_size = 4096\<rparr>)"
    unfolding readUntil_def error_page_def langs_delim_def
    by (subst readUntil_loop.simps) (simp add: scan_simps HasSuffix_def)
  have first: "Languages failing_env \<lparr>cachedLangs = None, fetched = []\<rparr> =
     Some (Fail (JSONError 0), \<lparr>cachedLangs = Some [], fetched = [langs_url]\<rparr>)"
    by (simp add: Languages_def failing_env_def scan)
  have got: "http_get failing_env 0 langs_url = Inr error_page"
    by (simp add: failing_env_def)
  from Languages_error_is_cached [of failing_env "[]" "JSONError 0"
      "\<lparr>cachedLangs = Some [], fetched = [langs_url]\<rparr>" error_page] first got
  show ?thesis by simp
qed

end
